theory Spec2Isabelle
  imports Complex_Main "HOL-Library.AList" "HOL-Library.Multiset"
begin

section \<open>The agent trajectory buffer of \<^verbatim>\<open>mlagents/trainers/buffer.py\<close>\<close>

text \<open>
  The module defines \<^verbatim>\<open>AgentBuffer\<close>, a dictionary from field names to
  \<^verbatim>\<open>AgentBufferField\<close>s, and \<^verbatim>\<open>AgentBufferField\<close>, a list of elements with
  one extra attribute, \<^verbatim>\<open>padding_value\<close>. The embedding keeps Python's integers as
  \<^typ>\<open>int\<close>, every \<^verbatim>\<open>raise\<close> as a value of the type \<open>error\<close>, and every
  mutation of \<^verbatim>\<open>self\<close> as a returned, updated state. A method that can raise after
  it has mutated returns the state it leaves behind together with the error.

  The elements are numpy arrays, opaque here (type \<open>'a\<close>). The scaling
  \<^verbatim>\<open>np.array(x, dtype=np.float32) * padding_value\<close> is a parameter \<open>mul\<close>, and the
  two calls into \<^verbatim>\<open>np.random\<close> are parameters as well.
\<close>

subsection \<open>Exceptions\<close>

text \<open>
  The module raises one exception class of its own, \<^verbatim>\<open>BufferException\<close>, at three
  places that differ in their message. The other constructors are the built-in
  exceptions the code can run into.
\<close>

datatype buffer_message =
    BatchTooLarge
  | ShuffleLengthMismatch
  | ResequenceLengthMismatch "string list"

datatype error =
    BufferException buffer_message
  | IndexError
  | ZeroDivisionError
  | TypeError
  | AttributeError
  | ValueError

subsection \<open>Python lists\<close>

text \<open>
  A slice bound \<open>i\<close> on a list of length \<open>n\<close>: a negative bound counts from the end,
  and every bound is clamped into \<open>0..n\<close>.
\<close>

definition slice_bound :: "int \<Rightarrow> int \<Rightarrow> int" where
  "slice_bound n i = (if i < 0 then max (n + i) 0 else min i n)"

text \<open>\<^verbatim>\<open>xs[start:stop]\<close>, an omitted bound being \<open>None\<close>.\<close>

definition py_slice :: "'a list \<Rightarrow> int option \<Rightarrow> int option \<Rightarrow> 'a list" where
  "py_slice xs start stop =
     (let n = int (length xs);
          lo = (case start of None \<Rightarrow> 0 | Some i \<Rightarrow> slice_bound n i);
          hi = (case stop of None \<Rightarrow> n | Some j \<Rightarrow> slice_bound n j)
      in take (nat (hi - lo)) (drop (nat lo) xs))"

text \<open>\<^verbatim>\<open>xs * k\<close>: \<open>k\<close> copies of \<open>xs\<close>, none when \<open>k\<close> is negative.\<close>

definition py_repeat :: "'a list \<Rightarrow> int \<Rightarrow> 'a list" where
  "py_repeat xs k = concat (replicate (nat k) xs)"

text \<open>\<^verbatim>\<open>range(a, b)\<close> and \<^verbatim>\<open>np.arange(c)\<close>.\<close>

definition py_range :: "int \<Rightarrow> int \<Rightarrow> int list" where
  "py_range a b = [a..b - 1]"

definition np_arange :: "int \<Rightarrow> int list" where
  "np_arange c = py_range 0 c"

text \<open>\<^verbatim>\<open>xs[-1]\<close> raises on the empty list.\<close>

definition py_last :: "'a list \<Rightarrow> error + 'a" where
  "py_last xs = (if xs = [] then Inl IndexError else Inr (last xs))"

subsection \<open>AgentBufferField\<close>

record ('a, 'p) AgentBufferField =
  elements :: "'a list"
  padding_value :: 'p

text \<open>\<^verbatim>\<open>__init__\<close>: the empty list, with \<^verbatim>\<open>padding_value = 0\<close>.\<close>

definition new_field :: "('a, 'p::zero) AgentBufferField" where
  "new_field = \<lparr>elements = [], padding_value = 0\<rparr>"

definition append_field ::
  "'a \<Rightarrow> 'p \<Rightarrow> ('a, 'p) AgentBufferField \<Rightarrow> ('a, 'p) AgentBufferField" where
  "append_field element pv self =
     self\<lparr>elements := elements self @ [element], padding_value := pv\<rparr>"

text \<open>\<^verbatim>\<open>set\<close>: \<^verbatim>\<open>self[:] = []; self[:] = data\<close>.\<close>

definition set_field ::
  "'a list \<Rightarrow> ('a, 'p) AgentBufferField \<Rightarrow> ('a, 'p) AgentBufferField" where
  "set_field data self = (self\<lparr>elements := []\<rparr>)\<lparr>elements := data\<rparr>"

text \<open>The inherited \<^verbatim>\<open>list.extend\<close>.\<close>

definition extend_field ::
  "'a list \<Rightarrow> ('a, 'p) AgentBufferField \<Rightarrow> ('a, 'p) AgentBufferField" where
  "extend_field data self = self\<lparr>elements := elements self @ data\<rparr>"

definition reset_field :: "('a, 'p) AgentBufferField \<Rightarrow> ('a, 'p) AgentBufferField" where
  "reset_field self = self\<lparr>elements := []\<rparr>"

text \<open>
  The loop of the overlapping branch of \<^verbatim>\<open>get_batch\<close>:
  \<^verbatim>\<open>for end in range(...): tmp_list += self[end - training_length : end]\<close>.
\<close>

fun window_loop :: "'a list \<Rightarrow> int \<Rightarrow> int list \<Rightarrow> 'a list \<Rightarrow> 'a list" where
  "window_loop xs training_length [] tmp_list = tmp_list"
| "window_loop xs training_length (e # es) tmp_list =
     window_loop xs training_length es
       (tmp_list @ py_slice xs (Some (e - training_length)) (Some e))"

text \<open>
  \<^verbatim>\<open>get_batch(batch_size, training_length, sequential)\<close>. The result is paired with
  the field as the call leaves it: the method reads \<^verbatim>\<open>self\<close> and assigns to no part
  of it.
\<close>

definition get_batch ::
  "('a \<Rightarrow> 'p \<Rightarrow> 'a) \<Rightarrow> ('a, 'p) AgentBufferField \<Rightarrow> int option \<Rightarrow> int \<Rightarrow> bool
     \<Rightarrow> (error + 'a list) \<times> ('a, 'p) AgentBufferField" where
  "get_batch mul self batch_size training_length sequential =
     (let xs = elements self; n = int (length xs) in
      if sequential then
        if training_length = 0 then (Inl ZeroDivisionError, self)
        else
          let leftover = n mod training_length;
              most = n div training_length + 1 * of_bool (leftover \<noteq> 0);
              b = (case batch_size of None \<Rightarrow> most | Some b \<Rightarrow> b)
          in
            if b > most then (Inl (BufferException BatchTooLarge), self)
            else if b * training_length > n then
              (case py_last xs of
                 Inl e \<Rightarrow> (Inl e, self)
               | Inr l \<Rightarrow>
                   (Inr (py_repeat [mul l (padding_value self)] (training_length - leftover)
                         @ py_slice xs None None), self))
            else (Inr (py_slice xs (Some (n - b * training_length)) None), self)
      else
        let b = (case batch_size of None \<Rightarrow> n - training_length + 1 | Some b \<Rightarrow> b) in
          if n - training_length + 1 < b then (Inl (BufferException BatchTooLarge), self)
          else (Inr (window_loop xs training_length (py_range (n - b + 1) (n + 1)) []), self))"

subsection \<open>AgentBuffer\<close>

text \<open>
  A Python dictionary keeps its keys in insertion order, and \<^verbatim>\<open>num_experiences\<close>
  reads the first value, so the dictionary is an association list: \<open>map_of\<close> looks a
  key up, \<open>AList.update\<close> overwrites the value of a present key in place and adds an
  absent key at the end. \<open>'v\<close> is a parameter because \<^verbatim>\<open>make_mini_batch\<close> stores
  values of another kind than fields. The methods that slice, measure or replace the
  contents of the values are modelled on buffers of fields; \<^verbatim>\<open>reset_agent\<close>,
  which calls a method of the value, is modelled on both kinds of value.
\<close>

record ('v, 'm) AgentBuffer =
  entries :: "(string \<times> 'v) list"
  last_brain_info :: "'m option"
  last_take_action_outputs :: "'m option"

type_synonym ('a, 'p, 'm) field_buffer = "(('a, 'p) AgentBufferField, 'm) AgentBuffer"

definition new_buffer :: "('v, 'm) AgentBuffer" where
  "new_buffer = \<lparr>entries = [], last_brain_info = None, last_take_action_outputs = None\<rparr>"

definition keys :: "('v, 'm) AgentBuffer \<Rightarrow> string list" where
  "keys self = map fst (entries self)"

text \<open>The inherited \<^verbatim>\<open>dict.__setitem__\<close>.\<close>

definition setitem :: "string \<Rightarrow> 'v \<Rightarrow> ('v, 'm) AgentBuffer \<Rightarrow> ('v, 'm) AgentBuffer" where
  "setitem key v self = self\<lparr>entries := AList.update key v (entries self)\<rparr>"

text \<open>
  \<^verbatim>\<open>__getitem__\<close> stores a new empty field under a key that is not there yet, and
  returns the field with the buffer as the lookup leaves it.
\<close>

definition getitem ::
  "string \<Rightarrow> ('a, 'p::zero, 'm) field_buffer
     \<Rightarrow> ('a, 'p) AgentBufferField \<times> ('a, 'p, 'm) field_buffer" where
  "getitem key self =
     (case map_of (entries self) key of
        None \<Rightarrow> (new_field, setitem key new_field self)
      | Some f \<Rightarrow> (f, self))"

text \<open>
  An assignment to the contents of a stored field, \<^verbatim>\<open>self[key][:] = data\<close>: the
  field object stays under its key and keeps its \<^verbatim>\<open>padding_value\<close>. No method of
  the module stores one field object under two keys.
\<close>

definition assign_elements ::
  "string \<Rightarrow> 'a list \<Rightarrow> ('a, 'p::zero, 'm) field_buffer \<Rightarrow> ('a, 'p, 'm) field_buffer" where
  "assign_elements key data self =
     (let (f, self1) = getitem key self in setitem key (f\<lparr>elements := data\<rparr>) self1)"

text \<open>
  \<^verbatim>\<open>check_length\<close>: \<open>len\<close> is the local \<^verbatim>\<open>length\<close>, \<open>None\<close> before the first key.
  The lookup \<^verbatim>\<open>self[key]\<close> comes after the membership test, so it never inserts.
\<close>

fun check_length_loop ::
  "('a, 'p, 'm) field_buffer \<Rightarrow> string list \<Rightarrow> int option \<Rightarrow> bool" where
  "check_length_loop self [] len = True"
| "check_length_loop self (key # key_list) len =
     (case map_of (entries self) key of
        None \<Rightarrow> False
      | Some f \<Rightarrow>
          if len \<noteq> None \<and> len \<noteq> Some (int (length (elements f))) then False
          else check_length_loop self key_list (Some (int (length (elements f)))))"

definition check_length :: "('a, 'p, 'm) field_buffer \<Rightarrow> string list \<Rightarrow> bool" where
  "check_length self key_list =
     (if length key_list < 2 then True else check_length_loop self key_list None)"

text \<open>
  \<^verbatim>\<open>shuffle\<close>. The inner loop
  \<^verbatim>\<open>for i in s: tmp += self[key][i * sequence_length : (i + 1) * sequence_length]\<close>,
  the outer loop over \<^verbatim>\<open>key_list\<close>, and the method. \<open>rnd\<close> is
  \<^verbatim>\<open>np.random.shuffle\<close>, from the array it is given to the array it leaves.
\<close>

fun chunk_loop :: "'a list \<Rightarrow> int \<Rightarrow> int list \<Rightarrow> 'a list \<Rightarrow> 'a list" where
  "chunk_loop xs sequence_length [] tmp = tmp"
| "chunk_loop xs sequence_length (i # s) tmp =
     chunk_loop xs sequence_length s
       (tmp @ py_slice xs (Some (i * sequence_length)) (Some ((i + 1) * sequence_length)))"

fun shuffle_loop ::
  "int \<Rightarrow> int list \<Rightarrow> string list \<Rightarrow> ('a, 'p::zero, 'm) field_buffer
     \<Rightarrow> ('a, 'p, 'm) field_buffer" where
  "shuffle_loop sequence_length s [] self = self"
| "shuffle_loop sequence_length s (key # key_list) self =
     (let (f, self1) = getitem key self;
          tmp = chunk_loop (elements f) sequence_length s []
      in shuffle_loop sequence_length s key_list (assign_elements key tmp self1))"

definition shuffle ::
  "(int list \<Rightarrow> int list) \<Rightarrow> int \<Rightarrow> string list option \<Rightarrow> ('a, 'p::zero, 'm) field_buffer
     \<Rightarrow> (error + unit) \<times> ('a, 'p, 'm) field_buffer" where
  "shuffle rnd sequence_length key_list_opt self =
     (let key_list = (case key_list_opt of None \<Rightarrow> keys self | Some ks \<Rightarrow> ks) in
      if \<not> check_length self key_list then (Inl (BufferException ShuffleLengthMismatch), self)
      else
        case key_list of
          [] \<Rightarrow> (Inl IndexError, self)
        | k0 # _ \<Rightarrow>
            let (f0, self1) = getitem k0 self in
              if sequence_length = 0 then (Inl ZeroDivisionError, self1)
              else
                let s = rnd (np_arange (int (length (elements f0)) div sequence_length))
                in (Inr (), shuffle_loop sequence_length s key_list self1))"

text \<open>
  What a dictionary value can be once \<^verbatim>\<open>make_mini_batch\<close> has run: a slice of an
  \<^verbatim>\<open>AgentBufferField\<close> is a plain \<^verbatim>\<open>list\<close>
  (\<^verbatim>\<open>list.__getitem__\<close> builds a \<^verbatim>\<open>list\<close>, whatever the subclass), and a plain
  list has no attribute \<^verbatim>\<open>padding_value\<close>.
\<close>

datatype ('a, 'p) py_value =
    FieldObj "('a, 'p) AgentBufferField"
  | ListObj "'a list"

text \<open>The attribute read \<^verbatim>\<open>v.padding_value\<close>.\<close>

definition get_padding_value :: "('a, 'p) py_value \<Rightarrow> error + 'p" where
  "get_padding_value v =
     (case v of FieldObj f \<Rightarrow> Inr (padding_value f) | ListObj xs \<Rightarrow> Inl AttributeError)"

text \<open>
  \<^verbatim>\<open>make_mini_batch\<close>: \<^verbatim>\<open>for key in self: mini_batch[key] = self[key][start:end]\<close>.
  The keys come from \<^verbatim>\<open>self\<close>, so the lookup finds each of them.
\<close>

fun make_mini_batch_loop ::
  "int \<Rightarrow> int \<Rightarrow> ('a, 'p::zero, 'm) field_buffer \<Rightarrow> string list
     \<Rightarrow> (('a, 'p) py_value, 'm) AgentBuffer \<Rightarrow> (('a, 'p) py_value, 'm) AgentBuffer" where
  "make_mini_batch_loop start end self [] mini_batch = mini_batch"
| "make_mini_batch_loop start end self (key # ks) mini_batch =
     make_mini_batch_loop start end self ks
       (setitem key
          (ListObj (py_slice (elements (fst (getitem key self))) (Some start) (Some end)))
          mini_batch)"

definition make_mini_batch ::
  "int \<Rightarrow> int \<Rightarrow> ('a, 'p::zero, 'm) field_buffer \<Rightarrow> (('a, 'p) py_value, 'm) AgentBuffer" where
  "make_mini_batch start end self = make_mini_batch_loop start end self (keys self) new_buffer"

text \<open>\<^verbatim>\<open>num_experiences\<close>: the length of the first value, 0 without values.\<close>

definition num_experiences :: "('a, 'p, 'm) field_buffer \<Rightarrow> int" where
  "num_experiences self =
     (case entries self of [] \<Rightarrow> 0 | (k, f) # _ \<Rightarrow> int (length (elements f)))"

text \<open>
  \<^verbatim>\<open>sample_mini_batch\<close>. \<open>randint high size\<close> is
  \<^verbatim>\<open>np.random.randint(high, size=size)\<close>, with the exceptions it may raise.
  \<^verbatim>\<open>mini_batch[key]\<close> goes through \<^verbatim>\<open>__getitem__\<close> of the new buffer, which
  creates the field.
\<close>

fun sample_loop ::
  "int \<Rightarrow> int list \<Rightarrow> ('a, 'p::zero, 'm) field_buffer \<Rightarrow> string list
     \<Rightarrow> ('a, 'p, 'm) field_buffer \<Rightarrow> ('a, 'p, 'm) field_buffer" where
  "sample_loop sequence_length start_idxes self [] mini_batch = mini_batch"
| "sample_loop sequence_length start_idxes self (key # ks) mini_batch =
     (let mb_list =
            map (\<lambda>i. py_slice (elements (fst (getitem key self)))
                       (Some i) (Some (i + sequence_length))) start_idxes;
          (f, mini_batch1) = getitem key mini_batch
      in sample_loop sequence_length start_idxes self ks
           (setitem key (set_field (concat mb_list) f) mini_batch1))"

definition sample_mini_batch ::
  "(int \<Rightarrow> int \<Rightarrow> error + int list) \<Rightarrow> int \<Rightarrow> int \<Rightarrow> ('a, 'p::zero, 'm) field_buffer
     \<Rightarrow> error + ('a, 'p, 'm) field_buffer" where
  "sample_mini_batch randint batch_size sequence_length self =
     (if sequence_length = 0 then Inl ZeroDivisionError
      else
        let num_seq_to_sample = batch_size div sequence_length;
            mini_batch = new_buffer;
            buff_len = num_experiences self;
            num_sequences_in_buffer = buff_len div sequence_length
        in case randint num_sequences_in_buffer num_seq_to_sample of
             Inl e \<Rightarrow> Inl e
           | Inr r \<Rightarrow>
               let start_idxes = map (\<lambda>x. x * sequence_length) r
               in Inr (sample_loop sequence_length start_idxes self (keys self) mini_batch))"

text \<open>\<^verbatim>\<open>truncate\<close>.\<close>

fun truncate_loop ::
  "int \<Rightarrow> int \<Rightarrow> string list \<Rightarrow> ('a, 'p::zero, 'm) field_buffer \<Rightarrow> ('a, 'p, 'm) field_buffer" where
  "truncate_loop current_length max_length [] self = self"
| "truncate_loop current_length max_length (k # ks) self =
     (let (f, self1) = getitem k self
      in truncate_loop current_length max_length ks
           (assign_elements k
              (py_slice (elements f) (Some (current_length - max_length)) None) self1))"

definition truncate ::
  "int \<Rightarrow> int \<Rightarrow> ('a, 'p::zero, 'm) field_buffer
     \<Rightarrow> (error + unit) \<times> ('a, 'p, 'm) field_buffer" where
  "truncate max_length sequence_length self =
     (let current_length = num_experiences self in
      if sequence_length = 0 then (Inl ZeroDivisionError, self)
      else
        let max_length1 = max_length - max_length mod sequence_length in
          if current_length > max_length1
          then (Inr (), truncate_loop current_length max_length1 (keys self) self)
          else (Inr (), self))"

text \<open>
  \<^verbatim>\<open>resequence_and_append\<close>. In
  \<^verbatim>\<open>target_buffer[field_key].extend(self[field_key].get_batch(...))\<close> Python
  evaluates \<^verbatim>\<open>target_buffer[field_key]\<close> first, then the argument; both lookups can
  insert an empty field before \<^verbatim>\<open>get_batch\<close> runs or raises. The default
  \<^verbatim>\<open>training_length=None\<close> reaches \<^verbatim>\<open>len(self) % training_length\<close>, a
  \<^verbatim>\<open>TypeError\<close>. The receiver and the target are two objects.
\<close>

fun resequence_loop ::
  "('a \<Rightarrow> 'p \<Rightarrow> 'a) \<Rightarrow> int option \<Rightarrow> int option \<Rightarrow> string list
     \<Rightarrow> ('a, 'p::zero, 'm) field_buffer \<Rightarrow> ('a, 'p, 'm) field_buffer
     \<Rightarrow> (error + unit) \<times> ('a, 'p, 'm) field_buffer \<times> ('a, 'p, 'm) field_buffer" where
  "resequence_loop mul batch_size training_length [] self target_buffer =
     (Inr (), self, target_buffer)"
| "resequence_loop mul batch_size training_length (field_key # ks) self target_buffer =
     (let (tf, target1) = getitem field_key target_buffer;
          (sf, self1) = getitem field_key self
      in case training_length of
           None \<Rightarrow> (Inl TypeError, self1, target1)
         | Some t \<Rightarrow>
             (case fst (get_batch mul sf batch_size t True) of
                Inl e \<Rightarrow> (Inl e, self1, target1)
              | Inr batch \<Rightarrow>
                  resequence_loop mul batch_size training_length ks self1
                    (setitem field_key (extend_field batch tf) target1)))"

definition resequence_and_append ::
  "('a \<Rightarrow> 'p \<Rightarrow> 'a) \<Rightarrow> string list option \<Rightarrow> int option \<Rightarrow> int option
     \<Rightarrow> ('a, 'p::zero, 'm) field_buffer \<Rightarrow> ('a, 'p, 'm) field_buffer
     \<Rightarrow> (error + unit) \<times> ('a, 'p, 'm) field_buffer \<times> ('a, 'p, 'm) field_buffer" where
  "resequence_and_append mul key_list_opt batch_size training_length self target_buffer =
     (let key_list = (case key_list_opt of None \<Rightarrow> keys self | Some ks \<Rightarrow> ks) in
      if \<not> check_length self key_list
      then (Inl (BufferException (ResequenceLengthMismatch key_list)), self, target_buffer)
      else resequence_loop mul batch_size training_length key_list self target_buffer)"

text \<open>
  \<^verbatim>\<open>reset_agent\<close>. Its loop calls \<^verbatim>\<open>self[k].reset_field()\<close> on every value
  of the dictionary, and a value need not be a field: the buffer that
  \<^verbatim>\<open>make_mini_batch\<close> returns is an \<^verbatim>\<open>AgentBuffer\<close> of plain lists, which have
  no method \<^verbatim>\<open>reset_field\<close>. So the method is modelled on buffers of either kind
  of value. The lookup is \<^verbatim>\<open>__getitem__\<close> again (the keys come from \<^verbatim>\<open>self\<close>,
  so it finds them), the method call raises \<^verbatim>\<open>AttributeError\<close> on a plain list,
  and the exception leaves the loop before the two metadata slots are assigned.
\<close>

definition getitem_value ::
  "string \<Rightarrow> (('a, 'p::zero) py_value, 'm) AgentBuffer
     \<Rightarrow> ('a, 'p) py_value \<times> (('a, 'p) py_value, 'm) AgentBuffer" where
  "getitem_value key self =
     (case map_of (entries self) key of
        None \<Rightarrow> (FieldObj new_field, setitem key (FieldObj new_field) self)
      | Some v \<Rightarrow> (v, self))"

text \<open>The method call \<^verbatim>\<open>v.reset_field()\<close>, with the object as the call leaves it.\<close>

definition call_reset_field :: "('a, 'p) py_value \<Rightarrow> error + ('a, 'p) py_value" where
  "call_reset_field v =
     (case v of
        FieldObj f \<Rightarrow> Inr (FieldObj (reset_field f))
      | ListObj xs \<Rightarrow> Inl AttributeError)"

fun reset_loop ::
  "string list \<Rightarrow> (('a, 'p::zero) py_value, 'm) AgentBuffer
     \<Rightarrow> (error + unit) \<times> (('a, 'p) py_value, 'm) AgentBuffer" where
  "reset_loop [] self = (Inr (), self)"
| "reset_loop (k # ks) self =
     (let (v, self1) = getitem_value k self
      in case call_reset_field v of
           Inl e \<Rightarrow> (Inl e, self1)
         | Inr v1 \<Rightarrow> reset_loop ks (setitem k v1 self1))"

definition reset_agent ::
  "(('a, 'p::zero) py_value, 'm) AgentBuffer
     \<Rightarrow> (error + unit) \<times> (('a, 'p) py_value, 'm) AgentBuffer" where
  "reset_agent self =
     (case reset_loop (keys self) self of
        (Inl e, self1) \<Rightarrow> (Inl e, self1)
      | (Inr u, self1) \<Rightarrow>
          (Inr (), self1\<lparr>last_brain_info := None, last_take_action_outputs := None\<rparr>))"

section \<open>Properties\<close>

subsection \<open>Slices, repetition and the dictionary\<close>

lemma py_slice_all: "py_slice xs None None = xs"
  by (simp add: py_slice_def)

lemma py_slice_from: "0 \<le> i \<Longrightarrow> py_slice xs (Some i) None = drop (nat i) xs"
  by (auto simp add: py_slice_def slice_bound_def Let_def min_def)

lemma py_repeat_single: "py_repeat [x] k = replicate (nat k) x"
  by (induction "nat k" arbitrary: k) (auto simp: py_repeat_def)

lemma ceiling_div_of_bool:
  fixes n t :: int
  assumes "0 < t"
  shows "\<lceil>real_of_int n / real_of_int t\<rceil> = n div t + of_bool (n mod t \<noteq> 0)"
  using assms by (simp add: ceiling_divide_eq_div zdiv_zminus1_eq_if)

lemma less_next_multiple:
  fixes n t :: int
  assumes "0 < t"
  shows "n < (n div t + 1) * t"
proof -
  have "n div t * t + n mod t < n div t * t + t"
    using assms by (intro add_strict_left_mono) simp
  then show ?thesis by (simp add: algebra_simps)
qed

lemma map_of_setitem: "map_of (entries (setitem k v b)) = (map_of (entries b))(k \<mapsto> v)"
  by (simp add: setitem_def update_conv')

lemma keys_setitem:
  "keys (setitem k v b) = (if k \<in> set (keys b) then keys b else keys b @ [k])"
  by (simp add: setitem_def keys_def update_keys)

lemma map_of_keys: "map_of (entries b) k = None \<longleftrightarrow> k \<notin> set (keys b)"
  by (simp add: keys_def map_of_eq_None_iff)

lemma getitem_present: "map_of (entries b) k = Some f \<Longrightarrow> getitem k b = (f, b)"
  by (simp add: getitem_def)

lemma getitem_absent:
  "map_of (entries b) k = None \<Longrightarrow> getitem k b = (new_field, setitem k new_field b)"
  by (simp add: getitem_def)

subsection \<open>Sequential batches\<close>

text \<open>
  Claim C1. A field holds \<open>n > 0\<close> elements and \<^verbatim>\<open>get_batch\<close> is called with
  \<^verbatim>\<open>sequential=True\<close>, a training length \<open>t \<ge> 1\<close> and no batch size. The call
  returns \<open>\<lceil>n / t\<rceil> * t\<close> elements. When \<open>n mod t \<noteq> 0\<close> they are
  \<open>t - n mod t\<close> copies of the last element scaled by the field's padding value,
  followed by the \<open>n\<close> elements in their order; when \<open>n mod t = 0\<close> they are the
  \<open>n\<close> elements and nothing else.
\<close>

theorem get_batch_sequential_default:
  assumes "elements self \<noteq> []" and "0 < t" and "n = int (length (elements self))"
  shows "\<exists>ys. fst (get_batch mul self None t True) = Inr ys
           \<and> int (length ys) = \<lceil>real_of_int n / real_of_int t\<rceil> * t
           \<and> (n mod t \<noteq> 0 \<longrightarrow>
                ys = replicate (nat (t - n mod t)) (mul (last (elements self)) (padding_value self))
                     @ elements self)
           \<and> (n mod t = 0 \<longrightarrow> ys = elements self)"
proof (cases "n mod t = 0")
  case True
  then have nt: "n div t * t = n" by (simp add: mod_eq_0_iff_dvd)
  have "fst (get_batch mul self None t True) = Inr (elements self)"
    using assms True nt by (simp add: get_batch_def Let_def py_slice_from)
  moreover have "\<lceil>real_of_int n / real_of_int t\<rceil> * t = n"
    using assms(2) True nt by (simp add: ceiling_div_of_bool)
  ultimately show ?thesis using True assms(3) by simp
next
  case False
  have lt: "n < (n div t + 1) * t"
    using assms(2) by (rule less_next_multiple)
  have m: "0 \<le> n mod t" "n mod t < t" using assms(2) by simp_all
  have "fst (get_batch mul self None t True) =
          Inr (replicate (nat (t - n mod t)) (mul (last (elements self)) (padding_value self))
               @ elements self)"
    using assms False lt
    by (simp add: get_batch_def Let_def py_slice_all py_repeat_single py_last_def)
  moreover have "\<lceil>real_of_int n / real_of_int t\<rceil> * t = n + (t - n mod t)"
  proof -
    have "(n div t + 1) * t = n div t * t + t" by (simp add: algebra_simps)
    also have "n div t * t = n - n mod t" by (simp add: algebra_simps minus_mod_eq_mult_div)
    finally show ?thesis using assms(2) False by (simp add: ceiling_div_of_bool)
  qed
  ultimately show ?thesis using False assms(3) m by simp
qed

text \<open>Three elements, training length 2, padding value 5: one padding element, 3 * 5.\<close>

theorem get_batch_sequential_default_witness:
  "\<exists>ys. fst (get_batch (\<lambda>x p. x * p) \<lparr>elements = [1, 2, 3 :: int], padding_value = 5\<rparr>
             None 2 True) = Inr ys
      \<and> ys = [15, 1, 2, 3] \<and> int (length ys) = \<lceil>real_of_int 3 / real_of_int 2\<rceil> * 2"
  using get_batch_sequential_default
    [of "\<lparr>elements = [1, 2, 3 :: int], padding_value = 5 :: int\<rparr>" 2 3 "\<lambda>x p. x * p"]
  by (auto simp: numeral_eq_Suc)

subsection \<open>The batch size that is too large\<close>

text \<open>
  Claim C3. On a field of \<open>n\<close> elements \<^verbatim>\<open>get_batch\<close> raises its
  \<^verbatim>\<open>BufferException\<close> exactly when a batch size is given and exceeds the maximum:
  \<open>n div t\<close>, plus 1 when \<open>n mod t \<noteq> 0\<close>, in sequential mode, and \<open>n - t + 1\<close> in
  overlapping mode. Whatever the outcome, the field is after the call what it was
  before, elements and padding value. For a positive training length the call has no
  third outcome: it raises this exception or returns a list. (In sequential mode the
  training length 0 is a division by zero, which is why it is excluded.)
\<close>

theorem get_batch_out_of_range:
  assumes "sequential \<longrightarrow> t \<noteq> 0" and "n = int (length (elements self))"
  shows "(fst (get_batch mul self batch_size t sequential) = Inl (BufferException BatchTooLarge)
            \<longleftrightarrow> (\<exists>b. batch_size = Some b
                    \<and> b > (if sequential then n div t + of_bool (n mod t \<noteq> 0) else n - t + 1)))
         \<and> snd (get_batch mul self batch_size t sequential) = self
         \<and> ((sequential \<longrightarrow> 0 < t) \<longrightarrow>
              fst (get_batch mul self batch_size t sequential) = Inl (BufferException BatchTooLarge)
              \<or> (\<exists>ys. fst (get_batch mul self batch_size t sequential) = Inr ys))"
proof (cases sequential)
  case True
  then have t: "t \<noteq> 0" using assms(1) by simp
  show ?thesis
    using True t assms(2)
    by (cases batch_size)
       (auto simp: get_batch_def Let_def py_last_def zero_less_mult_iff split: sum.splits)
next
  case False
  then show ?thesis
    using assms(2) by (cases batch_size) (auto simp: get_batch_def Let_def)
qed

text \<open>Three elements in sequences of 2 give at most 2 sequences; 3 are refused.\<close>

theorem get_batch_out_of_range_witness:
  "fst (get_batch (\<lambda>x p. x * p) \<lparr>elements = [1, 2, 3 :: int], padding_value = 5 :: int\<rparr>
         (Some 3) 2 True) = Inl (BufferException BatchTooLarge)
   \<and> snd (get_batch (\<lambda>x p. x * p) \<lparr>elements = [1, 2, 3 :: int], padding_value = 5 :: int\<rparr>
         (Some 3) 2 True) = \<lparr>elements = [1, 2, 3 :: int], padding_value = 5 :: int\<rparr>"
  using get_batch_out_of_range
    [of True 2 3 "\<lparr>elements = [1, 2, 3 :: int], padding_value = 5 :: int\<rparr>"
        "\<lambda>x p. x * p" "Some 3"]
  by simp

subsection \<open>Appending a resequenced field\<close>

text \<open>
  Claim C5, as the code has it. The source buffer has one field, of two elements, and
  the target is a new buffer. With \<^verbatim>\<open>batch_size=4\<close> and
  \<^verbatim>\<open>training_length=2\<close> the call raises the \<^verbatim>\<open>BufferException\<close> of
  \<^verbatim>\<open>get_batch\<close>: two elements make one sequence of length 2, and 4 exceeds 1. The
  target has by then an empty field under the name and no element. The result the
  claim describes, two padding elements (the last element scaled by the source
  field's padding value) and then the two elements in order, is what the call gives
  with \<^verbatim>\<open>batch_size=1\<close> and \<^verbatim>\<open>training_length=4\<close>.
\<close>

theorem resequence_and_append_two_elements:
  "resequence_and_append mul (Some [k]) (Some 4) (Some 2)
       \<lparr>entries = [(k, \<lparr>elements = [x0, x1], padding_value = p\<rparr>)],
        last_brain_info = i, last_take_action_outputs = t\<rparr>
       new_buffer
     = (Inl (BufferException BatchTooLarge),
        \<lparr>entries = [(k, \<lparr>elements = [x0, x1], padding_value = p\<rparr>)],
         last_brain_info = i, last_take_action_outputs = t\<rparr>,
        \<lparr>entries = [(k, \<lparr>elements = [], padding_value = 0\<rparr>)],
         last_brain_info = None, last_take_action_outputs = None\<rparr>)
   \<and> resequence_and_append mul (Some [k]) (Some 1) (Some 4)
       \<lparr>entries = [(k, \<lparr>elements = [x0, x1], padding_value = p\<rparr>)],
        last_brain_info = i, last_take_action_outputs = t\<rparr>
       new_buffer
     = (Inr (),
        \<lparr>entries = [(k, \<lparr>elements = [x0, x1], padding_value = p\<rparr>)],
         last_brain_info = i, last_take_action_outputs = t\<rparr>,
        \<lparr>entries = [(k, \<lparr>elements = [mul x1 p, mul x1 p, x0, x1], padding_value = 0\<rparr>)],
         last_brain_info = None, last_take_action_outputs = None\<rparr>)"
  by (simp add: resequence_and_append_def check_length_def getitem_def setitem_def
      new_buffer_def new_field_def get_batch_def Let_def py_last_def py_repeat_def
      py_slice_def extend_field_def numeral_eq_Suc)

text \<open>
  The claim as the specification words it says the call with \<^verbatim>\<open>batch_size=4\<close> and
  \<^verbatim>\<open>training_length=2\<close> succeeds. On the field \<open>[1, 2]\<close> it raises.
\<close>

theorem resequence_and_append_two_elements_counterexample:
  "fst (resequence_and_append (\<lambda>x p. x * p) (Some [''obs'']) (Some 4) (Some 2)
         \<lparr>entries = [(''obs'', \<lparr>elements = [1, 2 :: int], padding_value = 0 :: int\<rparr>)],
          last_brain_info = None :: unit option, last_take_action_outputs = None\<rparr>
         new_buffer)
     = Inl (BufferException BatchTooLarge)"
  by (simp add: resequence_and_append_def check_length_def getitem_def setitem_def
      new_buffer_def new_field_def get_batch_def Let_def)

subsection \<open>Overlapping batches\<close>

lemma window_loop_concat:
  "window_loop xs t es tmp = tmp @ concat (map (\<lambda>e. py_slice xs (Some (e - t)) (Some e)) es)"
  by (induction es arbitrary: tmp) simp_all

lemma take_drop_map_nth:
  assumes "k + m \<le> length xs"
  shows "take m (drop k xs) = map (\<lambda>i. xs ! i) [k..<k + m]"
proof -
  have "take m (drop k xs) = take m (drop k (map (\<lambda>i. xs ! i) [0..<length xs]))"
    by (simp add: map_nth)
  also have "\<dots> = map (\<lambda>i. xs ! i) (take m (drop k [0..<length xs]))"
    by (simp add: take_map drop_map)
  also have "take m (drop k [0..<length xs]) = [k..<k + m]"
    using assms by (simp add: take_upt drop_upt)
  finally show ?thesis .
qed

lemma py_slice_between:
  assumes "0 \<le> lo" and "lo \<le> hi" and "hi \<le> int (length xs)"
  shows "py_slice xs (Some lo) (Some hi) = map (\<lambda>i. xs ! i) [nat lo..<nat hi]"
proof -
  have "py_slice xs (Some lo) (Some hi) = take (nat (hi - lo)) (drop (nat lo) xs)"
    using assms by (simp add: py_slice_def slice_bound_def Let_def min_def)
  also have "\<dots> = map (\<lambda>i. xs ! i) [nat lo..<nat lo + nat (hi - lo)]"
    using assms by (intro take_drop_map_nth) linarith
  also have "nat lo + nat (hi - lo) = nat hi"
    using assms by linarith
  finally show ?thesis .
qed

text \<open>
  Claim C2. A field holds \<open>n\<close> elements and \<^verbatim>\<open>get_batch\<close> is called with
  \<^verbatim>\<open>sequential=False\<close>, a training length \<open>t \<ge> 0\<close> and a batch size \<open>b\<close> with
  \<open>1 \<le> b \<le> n - t + 1\<close>. The result is the concatenation, for the end positions
  \<open>e = n - b + 1, \<dots>, n\<close> in ascending order, of the \<open>t\<close> elements that end at \<open>e\<close>,
  those at the indices \<open>e - t, \<dots>, e - 1\<close>. For five elements, training length 2 and
  batch size 4 it is \<open>[e0, e1, e1, e2, e2, e3, e3, e4]\<close>.
\<close>

theorem get_batch_overlapping:
  assumes "n = int (length (elements self))" and "0 \<le> t" and "1 \<le> b" and "b \<le> n - t + 1"
  shows "fst (get_batch mul self (Some b) t False) =
           Inr (concat (map (\<lambda>e. map (\<lambda>i. elements self ! i) [nat (e - t)..<nat e])
                            [n - b + 1..n]))
         \<and> fst (get_batch mul' \<lparr>elements = [e0, e1, e2, e3, e4], padding_value = p\<rparr>
                  (Some 4) 2 False) = Inr [e0, e1, e1, e2, e2, e3, e3, e4]"
proof
  have "py_slice (elements self) (Some (e - t)) (Some e)
          = map (\<lambda>i. elements self ! i) [nat (e - t)..<nat e]"
    if "e \<in> set [n - b + 1..n]" for e
    using that assms by (intro py_slice_between) auto
  then have meq: "map (\<lambda>e. py_slice (elements self) (Some (e - t)) (Some e)) [n - b + 1..n]
               = map (\<lambda>e. map (\<lambda>i. elements self ! i) [nat (e - t)..<nat e]) [n - b + 1..n]"
    by (intro map_cong) simp_all
  have "fst (get_batch mul self (Some b) t False) =
          Inr (concat (map (\<lambda>e. py_slice (elements self) (Some (e - t)) (Some e))
                           [n - b + 1..n]))"
    using assms by (simp add: get_batch_def Let_def window_loop_concat py_range_def)
  then show "fst (get_batch mul self (Some b) t False) =
           Inr (concat (map (\<lambda>e. map (\<lambda>i. elements self ! i) [nat (e - t)..<nat e])
                            [n - b + 1..n]))"
    by (simp only: meq)
next
  show "fst (get_batch mul' \<lparr>elements = [e0, e1, e2, e3, e4], padding_value = p\<rparr>
                  (Some 4) 2 False) = Inr [e0, e1, e1, e2, e2, e3, e3, e4]"
    by (simp add: get_batch_def Let_def py_range_def py_slice_def slice_bound_def
        numeral_eq_Suc)
qed

text \<open>Three elements, windows of 2, the last 2 windows.\<close>

theorem get_batch_overlapping_witness:
  "fst (get_batch (\<lambda>x p. x * p) \<lparr>elements = [10, 20, 30 :: int], padding_value = 0 :: int\<rparr>
         (Some 2) 2 False) = Inr [10, 20, 20, 30]"
  using get_batch_overlapping
    [of 3 "\<lparr>elements = [10, 20, 30 :: int], padding_value = 0 :: int\<rparr>" 2 2 "\<lambda>x p. x * p",
        THEN conjunct1]
  by (simp add: upt_rec)

subsection \<open>The length check and its exception\<close>

lemma check_length_loop_Some:
  "check_length_loop self ks (Some m) \<longleftrightarrow>
     (\<forall>k\<in>set ks. \<exists>f. map_of (entries self) k = Some f \<and> int (length (elements f)) = m)"
  by (induction ks) (auto split: option.splits)

lemma check_length_loop_None:
  "ks \<noteq> [] \<Longrightarrow>
   check_length_loop self ks None \<longleftrightarrow>
     (\<exists>m. \<forall>k\<in>set ks. \<exists>f. map_of (entries self) k = Some f \<and> length (elements f) = m)"
proof (cases ks)
  case Nil
  then show "ks \<noteq> [] \<Longrightarrow> ?thesis" by simp
next
  case (Cons k ks')
  show ?thesis
  proof (cases "map_of (entries self) k")
    case None
    then show ?thesis using Cons by auto
  next
    case (Some f)
    then show ?thesis using Cons by (auto simp: check_length_loop_Some)
  qed
qed

lemma check_length_iff:
  "check_length self ks \<longleftrightarrow>
     length ks < 2
     \<or> (\<exists>m. \<forall>k\<in>set ks. \<exists>f. map_of (entries self) k = Some f \<and> length (elements f) = m)"
proof (cases "length ks < 2")
  case True
  then show ?thesis by (simp add: check_length_def)
next
  case False
  then have "ks \<noteq> []" by auto
  then show ?thesis using False by (simp add: check_length_def check_length_loop_None)
qed

lemma get_batch_errors:
  "fst (get_batch mul f bs t sq) = Inl e \<Longrightarrow>
   e = BufferException BatchTooLarge \<or> e = ZeroDivisionError \<or> e = IndexError"
  by (auto simp: get_batch_def Let_def py_last_def split: if_splits sum.splits)

lemma resequence_loop_errors:
  "fst (resequence_loop mul bs tr ks self target) = Inl e \<Longrightarrow>
   e = BufferException BatchTooLarge \<or> e = ZeroDivisionError \<or> e = IndexError \<or> e = TypeError"
proof (induction ks arbitrary: self target)
  case Nil
  then show ?case by simp
next
  case (Cons k ks)
  then show ?case
    by (auto simp: Let_def split: prod.splits option.splits sum.splits dest: get_batch_errors)
qed

lemma shuffle_mismatch_iff:
  "fst (shuffle rnd sl (Some names) self) = Inl (BufferException ShuffleLengthMismatch)
     \<longleftrightarrow> \<not> check_length self names"
  by (auto simp: shuffle_def Let_def split: list.splits prod.splits)

lemma resequence_mismatch_iff:
  "(\<exists>msg. fst (resequence_and_append mul (Some names) bs tr self target)
            = Inl (BufferException (ResequenceLengthMismatch msg)))
     \<longleftrightarrow> \<not> check_length self names"
  by (auto simp: resequence_and_append_def dest: resequence_loop_errors)

text \<open>
  Claim C6. \<^verbatim>\<open>check_length\<close> holds of a list of names exactly when the list has
  fewer than two names, or every name has a field in the buffer and these fields have
  one common length. \<^verbatim>\<open>shuffle\<close> raises its length-mismatch
  \<^verbatim>\<open>BufferException\<close> exactly when \<^verbatim>\<open>check_length\<close> fails on the names, and so
  does \<^verbatim>\<open>resequence_and_append\<close>; when they do, the receiver, and for
  \<^verbatim>\<open>resequence_and_append\<close> the target too, is the buffer it was before the call.
\<close>

theorem length_mismatch:
  "(check_length self names \<longleftrightarrow>
      length names < 2
      \<or> (\<exists>m. \<forall>k\<in>set names. \<exists>f. map_of (entries self) k = Some f \<and> length (elements f) = m))
   \<and> (fst (shuffle rnd sl (Some names) self) = Inl (BufferException ShuffleLengthMismatch)
        \<longleftrightarrow> \<not> check_length self names)
   \<and> (\<not> check_length self names \<longrightarrow> snd (shuffle rnd sl (Some names) self) = self)
   \<and> ((\<exists>msg. fst (resequence_and_append mul (Some names) bs tr self target)
               = Inl (BufferException (ResequenceLengthMismatch msg)))
        \<longleftrightarrow> \<not> check_length self names)
   \<and> (\<not> check_length self names \<longrightarrow>
        snd (resequence_and_append mul (Some names) bs tr self target) = (self, target))"
proof -
  have "\<not> check_length self names \<Longrightarrow> snd (shuffle rnd sl (Some names) self) = self"
    by (simp add: shuffle_def)
  moreover have "\<not> check_length self names \<Longrightarrow>
        snd (resequence_and_append mul (Some names) bs tr self target) = (self, target)"
    by (simp add: resequence_and_append_def)
  ultimately show ?thesis
    using check_length_iff [of self names] shuffle_mismatch_iff [of rnd sl names self]
      resequence_mismatch_iff [of mul names bs tr self target]
    by blast
qed

text \<open>Two named fields of lengths 2 and 1: the check fails and \<^verbatim>\<open>shuffle\<close> raises.\<close>

theorem length_mismatch_witness:
  "\<not> check_length
       \<lparr>entries = [(''obs'', \<lparr>elements = [1, 2 :: int], padding_value = 0 :: int\<rparr>),
                   (''act'', \<lparr>elements = [7], padding_value = 0\<rparr>)],
        last_brain_info = None :: unit option, last_take_action_outputs = None\<rparr>
       [''obs'', ''act'']
   \<and> shuffle rev 1 (Some [''obs'', ''act''])
       \<lparr>entries = [(''obs'', \<lparr>elements = [1, 2 :: int], padding_value = 0 :: int\<rparr>),
                   (''act'', \<lparr>elements = [7], padding_value = 0\<rparr>)],
        last_brain_info = None :: unit option, last_take_action_outputs = None\<rparr>
     = (Inl (BufferException ShuffleLengthMismatch),
        \<lparr>entries = [(''obs'', \<lparr>elements = [1, 2 :: int], padding_value = 0 :: int\<rparr>),
                   (''act'', \<lparr>elements = [7], padding_value = 0\<rparr>)],
        last_brain_info = None :: unit option, last_take_action_outputs = None\<rparr>)"
proof -
  let ?b = "\<lparr>entries = [(''obs'', \<lparr>elements = [1, 2 :: int], padding_value = 0 :: int\<rparr>),
                   (''act'', \<lparr>elements = [7], padding_value = 0\<rparr>)],
        last_brain_info = None :: unit option, last_take_action_outputs = None\<rparr>"
  have c: "\<not> check_length ?b [''obs'', ''act'']"
    by (simp add: check_length_def)
  from length_mismatch [of ?b "[''obs'', ''act'']" rev 1 "\<lambda>x p. x * p" None None new_buffer] c
  have "fst (shuffle rev 1 (Some [''obs'', ''act'']) ?b) = Inl (BufferException ShuffleLengthMismatch)"
    and "snd (shuffle rev 1 (Some [''obs'', ''act'']) ?b) = ?b"
    by blast+
  then show ?thesis using c by (simp add: prod_eq_iff)
qed

subsection \<open>Truncation\<close>

lemma assign_elements_present:
  "map_of (entries b) k = Some f \<Longrightarrow>
   assign_elements k data b = setitem k (f\<lparr>elements := data\<rparr>) b"
  by (simp add: assign_elements_def getitem_present)

lemma truncate_loop_keys:
  "set ks \<subseteq> set (keys b) \<Longrightarrow> keys (truncate_loop c m ks b) = keys b"
proof (induction ks arbitrary: b)
  case Nil
  then show ?case by simp
next
  case (Cons k ks)
  then obtain f where f: "map_of (entries b) k = Some f"
    using map_of_keys [of b k] by auto
  show ?case
    using Cons f by (simp add: getitem_present assign_elements_present keys_setitem)
qed

lemma truncate_loop_map_of:
  "distinct ks \<Longrightarrow> set ks \<subseteq> set (keys b) \<Longrightarrow>
   map_of (entries (truncate_loop c m ks b)) k =
     (if k \<in> set ks
      then map_option (\<lambda>f. f\<lparr>elements := py_slice (elements f) (Some (c - m)) None\<rparr>)
             (map_of (entries b) k)
      else map_of (entries b) k)"
proof (induction ks arbitrary: b)
  case Nil
  then show ?case by simp
next
  case (Cons k' ks)
  then obtain f where f: "map_of (entries b) k' = Some f"
    using map_of_keys [of b k'] by auto
  let ?b = "setitem k' (f\<lparr>elements := py_slice (elements f) (Some (c - m)) None\<rparr>) b"
  have sub: "set ks \<subseteq> set (keys ?b)"
    using Cons.prems by (auto simp: keys_setitem)
  have d: "distinct ks" "k' \<notin> set ks" using Cons.prems by simp_all
  show ?case
    using Cons.IH [OF d(1) sub] f d(2)
    by (auto simp add: getitem_present assign_elements_present map_of_setitem)
qed

lemma truncate_loop_metadata:
  "last_brain_info (truncate_loop c m ks b) = last_brain_info b
   \<and> last_take_action_outputs (truncate_loop c m ks b) = last_take_action_outputs b"
  by (induction ks arbitrary: b)
     (auto simp: assign_elements_def getitem_def setitem_def split: prod.splits option.splits)

lemma truncate_fields:
  assumes "distinct (keys self)" and "sl \<noteq> 0"
    and "r = max_length - max_length mod sl" and "num_experiences self > r"
  shows "map_of (entries (snd (truncate max_length sl self))) k =
           map_option (\<lambda>f. f\<lparr>elements := drop (nat (num_experiences self - r)) (elements f)\<rparr>)
             (map_of (entries self) k)"
proof -
  have "map_of (entries (truncate_loop (num_experiences self) r (keys self) self)) k =
          map_option (\<lambda>f. f\<lparr>elements := py_slice (elements f)
                               (Some (num_experiences self - r)) None\<rparr>) (map_of (entries self) k)"
    using truncate_loop_map_of [OF assms(1) subset_refl, of "num_experiences self" r k]
      map_of_keys [of self k]
    by auto
  moreover have "py_slice xs (Some (num_experiences self - r)) None
                   = drop (nat (num_experiences self - r)) xs" for xs :: "'a list"
    using assms(4) by (intro py_slice_from) simp
  ultimately show ?thesis
    using assms by (simp add: truncate_def Let_def)
qed

text \<open>
  Claim C8, as the code has it. \<^verbatim>\<open>truncate\<close> (with a sequence length other than 0)
  replaces \<^verbatim>\<open>max_length\<close> by \<open>r\<close>, \<^verbatim>\<open>max_length\<close> minus its remainder modulo the
  sequence length: for a positive sequence length the greatest multiple of it that is
  at most \<^verbatim>\<open>max_length\<close>. With \<open>n\<close> the number of experiences (the length of the
  first field): when \<open>n > r\<close> every field loses its \<open>n - r\<close> oldest elements, so that a
  field of length \<open>n\<close> becomes its suffix of the \<open>r\<close> most recent elements (for
  \<open>r \<ge> 0\<close>), and every field keeps its padding value; when \<open>n \<le> r\<close> the buffer is
  unchanged. The keys stay as they are. \<^verbatim>\<open>truncate(3, 1)\<close> on a field
  \<open>[a, b, c, d, e]\<close> gives \<open>[c, d, e]\<close>, and \<^verbatim>\<open>truncate(10, 1)\<close> after it changes
  nothing.
\<close>

theorem truncate_suffix:
  assumes "distinct (keys self)" and "sl \<noteq> 0"
    and "r = max_length - max_length mod sl" and "n = num_experiences self"
  shows "fst (truncate max_length sl self) = Inr ()
         \<and> (0 < sl \<longrightarrow> sl dvd r \<and> r \<le> max_length \<and> max_length < r + sl)
         \<and> keys (snd (truncate max_length sl self)) = keys self
         \<and> (n \<le> r \<longrightarrow> snd (truncate max_length sl self) = self)
         \<and> (n > r \<longrightarrow>
              (\<forall>k. map_of (entries (snd (truncate max_length sl self))) k =
                     map_option (\<lambda>f. f\<lparr>elements := drop (nat (n - r)) (elements f)\<rparr>)
                       (map_of (entries self) k))
              \<and> (\<forall>k f. map_of (entries self) k = Some f \<and> int (length (elements f)) = n \<and> 0 \<le> r
                     \<longrightarrow> map_of (entries (snd (truncate max_length sl self))) k =
                           Some (f\<lparr>elements := drop (length (elements f) - nat r) (elements f)\<rparr>)
                         \<and> length (drop (length (elements f) - nat r) (elements f)) = nat r))
         \<and> snd (truncate 3 1 \<lparr>entries = [(key, \<lparr>elements = [a, b, c, d, e], padding_value = p\<rparr>)],
                               last_brain_info = i, last_take_action_outputs = t\<rparr>)
             = \<lparr>entries = [(key, \<lparr>elements = [c, d, e], padding_value = p\<rparr>)],
                last_brain_info = i, last_take_action_outputs = t\<rparr>
         \<and> snd (truncate 10 1 \<lparr>entries = [(key, \<lparr>elements = [c, d, e], padding_value = p\<rparr>)],
                                last_brain_info = i, last_take_action_outputs = t\<rparr>)
             = \<lparr>entries = [(key, \<lparr>elements = [c, d, e], padding_value = p\<rparr>)],
                last_brain_info = i, last_take_action_outputs = t\<rparr>"
proof -
  have ok: "fst (truncate max_length sl self) = Inr ()"
    using assms(2) by (simp add: truncate_def Let_def)
  have round: "0 < sl \<longrightarrow> sl dvd r \<and> r \<le> max_length \<and> max_length < r + sl"
  proof
    assume pos: "0 < sl"
    have "r = sl * (max_length div sl)"
      using assms(3) by (simp add: minus_mod_eq_mult_div)
    moreover have "0 \<le> max_length mod sl" "max_length mod sl < sl"
      using pos by simp_all
    ultimately show "sl dvd r \<and> r \<le> max_length \<and> max_length < r + sl"
      using assms(3) by auto
  qed
  have ks: "keys (snd (truncate max_length sl self)) = keys self"
    using assms(2) by (simp add: truncate_def Let_def truncate_loop_keys)
  have same: "n \<le> r \<longrightarrow> snd (truncate max_length sl self) = self"
    using assms by (simp add: truncate_def Let_def)
  have cut: "map_of (entries (snd (truncate max_length sl self))) k =
               map_option (\<lambda>f. f\<lparr>elements := drop (nat (n - r)) (elements f)\<rparr>)
                 (map_of (entries self) k)" if "n > r" for k
    using truncate_fields [OF assms(1,2,3), of k] that assms(4) by simp
  have suffix: "map_of (entries (snd (truncate max_length sl self))) k =
                  Some (f\<lparr>elements := drop (length (elements f) - nat r) (elements f)\<rparr>)
                \<and> length (drop (length (elements f) - nat r) (elements f)) = nat r"
    if "n > r" and "map_of (entries self) k = Some f" and "int (length (elements f)) = n"
      and "0 \<le> r" for k f
  proof -
    have "nat (n - r) = length (elements f) - nat r"
      using that by linarith
    moreover have "nat r \<le> length (elements f)" using that by linarith
    ultimately show ?thesis using cut [OF that(1), of k] that(2) by simp
  qed
  have ex1: "snd (truncate 3 1 \<lparr>entries = [(key, \<lparr>elements = [a, b, c, d, e], padding_value = p\<rparr>)],
                               last_brain_info = i, last_take_action_outputs = t\<rparr>)
             = \<lparr>entries = [(key, \<lparr>elements = [c, d, e], padding_value = p\<rparr>)],
                last_brain_info = i, last_take_action_outputs = t\<rparr>"
    by (simp add: truncate_def num_experiences_def keys_def assign_elements_def getitem_def
        setitem_def py_slice_def slice_bound_def Let_def)
  have ex2: "snd (truncate 10 1 \<lparr>entries = [(key, \<lparr>elements = [c, d, e], padding_value = p\<rparr>)],
                                last_brain_info = i, last_take_action_outputs = t\<rparr>)
             = \<lparr>entries = [(key, \<lparr>elements = [c, d, e], padding_value = p\<rparr>)],
                last_brain_info = i, last_take_action_outputs = t\<rparr>"
    by (simp add: truncate_def num_experiences_def)
  show ?thesis
    using ok round ks same cut suffix ex1 ex2 by blast
qed

text \<open>Two fields of five elements, cut to the three most recent.\<close>

theorem truncate_suffix_witness:
  "fst (truncate 3 1
     \<lparr>entries = [(''obs'', \<lparr>elements = [1, 2, 3, 4, 5 :: int], padding_value = 0 :: int\<rparr>),
                 (''act'', \<lparr>elements = [6, 7, 8, 9, 10], padding_value = 1\<rparr>)],
      last_brain_info = None :: unit option, last_take_action_outputs = None\<rparr>) = Inr ()
   \<and> map_of (entries (snd (truncate 3 1
     \<lparr>entries = [(''obs'', \<lparr>elements = [1, 2, 3, 4, 5 :: int], padding_value = 0 :: int\<rparr>),
                 (''act'', \<lparr>elements = [6, 7, 8, 9, 10], padding_value = 1\<rparr>)],
      last_brain_info = None :: unit option, last_take_action_outputs = None\<rparr>))) ''act''
     = Some \<lparr>elements = [8, 9, 10], padding_value = 1\<rparr>"
proof -
  let ?b = "\<lparr>entries = [(''obs'', \<lparr>elements = [1, 2, 3, 4, 5 :: int], padding_value = 0 :: int\<rparr>),
                 (''act'', \<lparr>elements = [6, 7, 8, 9, 10], padding_value = 1\<rparr>)],
      last_brain_info = None :: unit option, last_take_action_outputs = None\<rparr>"
  have h: "distinct (keys ?b)" "(1 :: int) \<noteq> 0" "(3 :: int) = 3 - 3 mod 1"
    "5 = num_experiences ?b"
    by (simp_all add: keys_def num_experiences_def)
  note t = truncate_suffix [OF h]
  have "fst (truncate 3 1 ?b) = Inr ()"
    using t by (rule conjunct1)
  moreover have "(3 :: int) < 5 \<longrightarrow>
      (\<forall>k. map_of (entries (snd (truncate 3 1 ?b))) k =
             map_option (\<lambda>f. f\<lparr>elements := drop (nat (5 - 3)) (elements f)\<rparr>)
               (map_of (entries ?b) k))
      \<and> (\<forall>k f. map_of (entries ?b) k = Some f \<and> int (length (elements f)) = 5 \<and> (0 :: int) \<le> 3
             \<longrightarrow> map_of (entries (snd (truncate 3 1 ?b))) k =
                   Some (f\<lparr>elements := drop (length (elements f) - nat 3) (elements f)\<rparr>)
                 \<and> length (drop (length (elements f) - nat 3) (elements f)) = nat 3)"
    using t [THEN conjunct2, THEN conjunct2, THEN conjunct2, THEN conjunct2, THEN conjunct1] .
  then have "map_of (entries (snd (truncate 3 1 ?b))) ''act'' =
             map_option (\<lambda>f. f\<lparr>elements := drop (nat (5 - 3)) (elements f)\<rparr>)
               (map_of (entries ?b) ''act'')"
    by simp
  then have "map_of (entries (snd (truncate 3 1 ?b))) ''act''
               = Some \<lparr>elements = [8, 9, 10], padding_value = 1\<rparr>"
    by (simp add: numeral_eq_Suc)
  ultimately show ?thesis by simp
qed

text \<open>
  The claim as the specification words it speaks of every buffer. With a first field
  of six elements and a second of four, \<^verbatim>\<open>truncate(3, 1)\<close> drops three elements of
  each: the second field keeps one element, not its three most recent.
\<close>

theorem truncate_suffix_counterexample:
  "map_of (entries (snd (truncate 3 1
       \<lparr>entries = [(''obs'', \<lparr>elements = [1, 2, 3, 4, 5, 6 :: int], padding_value = 0 :: int\<rparr>),
                   (''act'', \<lparr>elements = [1, 2, 3, 4], padding_value = 0\<rparr>)],
        last_brain_info = None :: unit option, last_take_action_outputs = None\<rparr>))) ''act''
     = Some \<lparr>elements = [4], padding_value = 0\<rparr>
   \<and> [4] \<noteq> drop (length [1, 2, 3, 4 :: int] - 3) [1, 2, 3, 4 :: int]"
  by (simp add: truncate_def num_experiences_def keys_def assign_elements_def getitem_def
      setitem_def py_slice_def slice_bound_def Let_def)

subsection \<open>Mini-batches\<close>

lemma fst_getitem_present: "map_of (entries b) k = Some f \<Longrightarrow> fst (getitem k b) = f"
  by (simp add: getitem_present)

lemma make_mini_batch_loop_map_of:
  "map_of (entries (make_mini_batch_loop start end self ks mb)) k =
     (if k \<in> set ks
      then Some (ListObj (py_slice (elements (fst (getitem k self))) (Some start) (Some end)))
      else map_of (entries mb) k)"
  by (induction ks arbitrary: mb) (simp_all add: map_of_setitem)

lemma make_mini_batch_map_of:
  "map_of (entries (make_mini_batch start end self)) k =
     map_option (\<lambda>f. ListObj (py_slice (elements f) (Some start) (Some end)))
       (map_of (entries self) k)"
proof (cases "map_of (entries self) k")
  case None
  then show ?thesis
    using map_of_keys [of self k]
    by (simp add: make_mini_batch_def make_mini_batch_loop_map_of new_buffer_def)
next
  case (Some f)
  then have "k \<in> set (keys self)" using map_of_keys [of self k] by auto
  then show ?thesis
    using Some
    by (simp add: make_mini_batch_def make_mini_batch_loop_map_of fst_getitem_present)
qed

lemma sample_loop_map_of:
  assumes "\<And>k g. map_of (entries mb) k = Some g \<Longrightarrow> padding_value g = 0"
  shows "map_of (entries (sample_loop sl idx self ks mb)) k =
     (if k \<in> set ks
      then Some \<lparr>elements = concat (map (\<lambda>i. py_slice (elements (fst (getitem k self)))
                                              (Some i) (Some (i + sl))) idx),
                padding_value = 0\<rparr>
      else map_of (entries mb) k)"
  using assms
proof (induction ks arbitrary: mb)
  case Nil
  then show ?case by simp
next
  case (Cons k' ks)
  let ?data = "concat (map (\<lambda>i. py_slice (elements (fst (getitem k' self)))
                                 (Some i) (Some (i + sl))) idx)"
  obtain g mb1 where g: "getitem k' mb = (g, mb1)" by (cases "getitem k' mb")
  have pg: "padding_value g = 0"
    using g Cons.prems by (auto simp: getitem_def new_field_def split: option.splits)
  have sg: "set_field ?data g = \<lparr>elements = ?data, padding_value = 0\<rparr>"
    using pg by (cases g) (simp add: set_field_def)
  have m1: "map_of (entries (setitem k' (set_field ?data g) mb1))
              = (map_of (entries mb))(k' \<mapsto> set_field ?data g)"
    using g by (auto simp: getitem_def map_of_setitem split: option.splits)
  have inv: "padding_value h = 0"
    if "map_of (entries (setitem k' (set_field ?data g) mb1)) k'' = Some h" for k'' h
    using that Cons.prems pg unfolding m1 by (auto simp: set_field_def split: if_splits)
  have ih: "map_of (entries (sample_loop sl idx self ks (setitem k' (set_field ?data g) mb1))) k =
     (if k \<in> set ks
      then Some \<lparr>elements = concat (map (\<lambda>i. py_slice (elements (fst (getitem k self)))
                                              (Some i) (Some (i + sl))) idx),
                padding_value = 0\<rparr>
      else map_of (entries (setitem k' (set_field ?data g) mb1)) k)"
    by (rule Cons.IH) (rule inv)
  show ?case
    using g by (simp add: Let_def ih [unfolded sg] m1 [unfolded sg] sg)
qed

lemma sample_mini_batch_map_of:
  assumes "sl \<noteq> 0" and "randint (num_experiences self div sl) (bs div sl) = Inr r"
  shows "\<exists>mb. sample_mini_batch randint bs sl self = Inr mb
           \<and> (\<forall>k. map_of (entries mb) k =
                 map_option (\<lambda>f. \<lparr>elements = concat (map (\<lambda>i. py_slice (elements f)
                                       (Some i) (Some (i + sl))) (map (\<lambda>x. x * sl) r)),
                                   padding_value = 0\<rparr>)
                   (map_of (entries self) k))"
proof -
  let ?mb = "sample_loop sl (map (\<lambda>x. x * sl) r) self (keys self) new_buffer"
  have 1: "sample_mini_batch randint bs sl self = Inr ?mb"
    using assms by (simp add: sample_mini_batch_def Let_def)
  have 2: "map_of (entries ?mb) k =
                 map_option (\<lambda>f. \<lparr>elements = concat (map (\<lambda>i. py_slice (elements f)
                                       (Some i) (Some (i + sl))) (map (\<lambda>x. x * sl) r)),
                                   padding_value = 0\<rparr>)
                   (map_of (entries self) k)" for k
  proof (cases "map_of (entries self) k")
    case None
    then show ?thesis
      using map_of_keys [of self k]
      by (subst sample_loop_map_of) (simp_all add: new_buffer_def)
  next
    case (Some f)
    then have "k \<in> set (keys self)" using map_of_keys [of self k] by auto
    then show ?thesis
      using Some
      by (subst sample_loop_map_of) (simp_all add: new_buffer_def fst_getitem_present)
  qed
  show ?thesis using 1 2 by blast
qed

text \<open>
  Claim C10, as the code has it. A field \<open>f\<close> is stored under \<open>k\<close> in the source
  buffer. \<^verbatim>\<open>make_mini_batch\<close> stores under \<open>k\<close> the slice of the elements of \<open>f\<close>,
  a plain list: it carries no padding value, neither that of \<open>f\<close> nor the default,
  and reading \<^verbatim>\<open>padding_value\<close> from it raises \<^verbatim>\<open>AttributeError\<close>.
  \<^verbatim>\<open>sample_mini_batch\<close>, whenever the sequence length is not 0 and the index
  sampler returns, stores under \<open>k\<close> a field whose padding value is the default 0,
  whatever the padding value of \<open>f\<close>.
\<close>

theorem mini_batch_padding:
  assumes "map_of (entries self) k = Some f"
  shows "map_of (entries (make_mini_batch start end self)) k
           = Some (ListObj (py_slice (elements f) (Some start) (Some end)))
         \<and> get_padding_value (ListObj (py_slice (elements f) (Some start) (Some end))
                                :: ('a, 'p::zero) py_value) = Inl AttributeError
         \<and> (\<forall>r. sl \<noteq> 0 \<and> randint (num_experiences self div sl) (bs div sl) = Inr r \<longrightarrow>
               (\<exists>mb g. sample_mini_batch randint bs sl self = Inr mb
                  \<and> map_of (entries mb) k = Some g
                  \<and> padding_value g = 0
                  \<and> get_padding_value (FieldObj g) = Inr 0))"
proof -
  have "\<exists>mb g. sample_mini_batch randint bs sl self = Inr mb
                  \<and> map_of (entries mb) k = Some g
                  \<and> padding_value g = 0
                  \<and> get_padding_value (FieldObj g) = Inr 0"
    if "sl \<noteq> 0" and "randint (num_experiences self div sl) (bs div sl) = Inr r" for r
    using sample_mini_batch_map_of [of sl randint self bs r] that assms
    by (auto simp: get_padding_value_def)
  then show ?thesis
    using assms by (simp add: make_mini_batch_map_of get_padding_value_def)
qed

text \<open>A field with padding value 1, sliced and sampled.\<close>

theorem mini_batch_padding_witness:
  "map_of (entries (make_mini_batch 0 1
       \<lparr>entries = [(''mask'', \<lparr>elements = [5, 6 :: int], padding_value = 1 :: int\<rparr>)],
        last_brain_info = None :: unit option, last_take_action_outputs = None\<rparr>)) ''mask''
     = Some (ListObj [5])
   \<and> (\<exists>mb g. sample_mini_batch (\<lambda>high size. Inr [1]) 1 1
       \<lparr>entries = [(''mask'', \<lparr>elements = [5, 6 :: int], padding_value = 1 :: int\<rparr>)],
        last_brain_info = None :: unit option, last_take_action_outputs = None\<rparr> = Inr mb
        \<and> map_of (entries mb) ''mask'' = Some g \<and> padding_value g = 0)"
proof -
  let ?b = "\<lparr>entries = [(''mask'', \<lparr>elements = [5, 6 :: int], padding_value = 1 :: int\<rparr>)],
        last_brain_info = None :: unit option, last_take_action_outputs = None\<rparr>"
  let ?f = "\<lparr>elements = [5, 6 :: int], padding_value = 1 :: int\<rparr>"
  let ?R = "\<lambda>(high :: int) (size :: int). Inr [1 :: int] :: error + int list"
  have h: "map_of (entries ?b) ''mask'' = Some ?f" by simp
  note t = mini_batch_padding [OF h, of 0 1 1 ?R 1]
  have "map_of (entries (make_mini_batch 0 1 ?b)) ''mask''
          = Some (ListObj (py_slice (elements ?f) (Some 0) (Some 1)))"
    using t by (rule conjunct1)
  then have 1: "map_of (entries (make_mini_batch 0 1 ?b)) ''mask'' = Some (ListObj [5])"
    by (simp add: py_slice_def slice_bound_def)
  have "\<forall>r. (1 :: int) \<noteq> 0 \<and> ?R (num_experiences ?b div 1) (1 div 1) = Inr r \<longrightarrow>
          (\<exists>mb g. sample_mini_batch ?R 1 1 ?b = Inr mb \<and> map_of (entries mb) ''mask'' = Some g
             \<and> padding_value g = 0 \<and> get_padding_value (FieldObj g) = Inr 0)"
    using t [THEN conjunct2, THEN conjunct2] .
  then have 2: "\<exists>mb g. sample_mini_batch ?R 1 1 ?b = Inr mb
             \<and> map_of (entries mb) ''mask'' = Some g \<and> padding_value g = 0"
    by auto
  show ?thesis using 1 2 by blast
qed

text \<open>
  The claim as it is worded gives the field of the mini-batch made by
  \<^verbatim>\<open>make_mini_batch\<close> the padding value 0. The entry is a plain list, and the read of
  its \<^verbatim>\<open>padding_value\<close> raises.
\<close>

theorem mini_batch_padding_counterexample:
  "map_option get_padding_value
     (map_of (entries (make_mini_batch 0 1
        \<lparr>entries = [(''mask'', \<lparr>elements = [5, 6 :: int], padding_value = 1 :: int\<rparr>)],
         last_brain_info = None :: unit option, last_take_action_outputs = None\<rparr>)) ''mask'')
     = Some (Inl AttributeError)"
  by (simp add: make_mini_batch_def keys_def new_buffer_def setitem_def get_padding_value_def)

subsection \<open>Sampled mini-batches\<close>

lemma py_slice_take_drop:
  assumes "0 \<le> lo" and "lo \<le> hi" and "hi \<le> int (length xs)"
  shows "py_slice xs (Some lo) (Some hi) = take (nat (hi - lo)) (drop (nat lo) xs)"
  using assms by (simp add: py_slice_def slice_bound_def Let_def min_def)

lemma length_concat_chunks:
  "(\<And>x. x \<in> set l \<Longrightarrow> length (g x) = m) \<Longrightarrow> length (concat (map g l)) = length l * m"
  by (induction l) simp_all

lemma chunk_of_concat:
  "(\<And>x. x \<in> set l \<Longrightarrow> length (g x) = m) \<Longrightarrow> j < length l \<Longrightarrow>
   take m (drop (j * m) (concat (map g l))) = g (l ! j)"
proof (induction l arbitrary: j)
  case Nil
  then show ?case by simp
next
  case (Cons x l)
  show ?case
  proof (cases j)
    case 0
    then show ?thesis using Cons.prems(1) [of x] by simp
  next
    case (Suc j')
    have "length (g x) = m" using Cons.prems(1) by simp
    then have "drop (j * m) (g x @ concat (map g l)) = drop (j' * m) (concat (map g l))"
      using Suc by simp
    then show ?thesis
      using Cons.IH [of j'] Cons.prems Suc by simp
  qed
qed

lemma aligned_start:
  fixes x sl n :: int
  assumes "1 \<le> sl" and "0 \<le> x" and "x < n div sl"
  shows "0 \<le> x * sl" and "x * sl + sl \<le> n div sl * sl" and "n div sl * sl \<le> n"
proof -
  show "0 \<le> x * sl" using assms by simp
  have "x + 1 \<le> n div sl" using assms by simp
  then have "(x + 1) * sl \<le> n div sl * sl"
    using assms(1) by (intro mult_right_mono) simp_all
  then show "x * sl + sl \<le> n div sl * sl" by (simp add: algebra_simps)
  have "n div sl * sl + n mod sl = n" by simp
  moreover have "0 \<le> n mod sl" using assms(1) by simp
  ultimately show "n div sl * sl \<le> n" by linarith
qed

lemma sample_start:
  fixes sl n :: int
  assumes "1 \<le> sl" and "i \<in> set (map (\<lambda>x. x * sl) r)"
    and "\<forall>x\<in>set r. 0 \<le> x \<and> x < n div sl"
  shows "sl dvd i \<and> 0 \<le> i \<and> i < n div sl * sl" and "i + sl \<le> n"
proof -
  obtain x where x: "i = x * sl" "0 \<le> x" "x < n div sl"
    using assms(2,3) by auto
  note a = aligned_start [OF assms(1) x(2,3)]
  show "sl dvd i \<and> 0 \<le> i \<and> i < n div sl * sl"
    using a(1,2) x assms(1) by simp
  show "i + sl \<le> n" using a(2,3) x(1) by linarith
qed

lemma sample_run:
  fixes sl n :: int
  assumes "1 \<le> sl" and "i \<in> set (map (\<lambda>x. x * sl) r)"
    and "\<forall>x\<in>set r. 0 \<le> x \<and> x < n div sl" and "int (length xs) = n"
  shows "py_slice xs (Some i) (Some (i + sl)) = take (nat sl) (drop (nat i) xs)"
    and "length (take (nat sl) (drop (nat i) xs)) = nat sl"
proof -
  note s = sample_start [OF assms(1,2,3)]
  have hi: "i + sl \<le> int (length xs)" using s(2) assms(4) by simp
  have lo: "0 \<le> i" using s(1) by simp
  show "py_slice xs (Some i) (Some (i + sl)) = take (nat sl) (drop (nat i) xs)"
    using py_slice_take_drop [of i "i + sl" xs] lo hi assms(1) by simp
  show "length (take (nat sl) (drop (nat i) xs)) = nat sl"
    using lo hi assms(1) by simp
qed

text \<open>
  Claim C7. Every field of the buffer has the length \<open>n\<close>, the sequence length \<open>sl\<close>
  satisfies \<open>1 \<le> sl \<le> n\<close>, the batch size is not negative, and the sampler returns
  a list \<open>r\<close> of \<open>batch_size div sl\<close> indices in \<open>[0, n div sl)\<close>. Then
  \<^verbatim>\<open>sample_mini_batch\<close> returns a buffer with the keys of the source. The start
  indices are the drawn indices times \<open>sl\<close>, in the order in which they were drawn:
  each is a multiple of \<open>sl\<close> in \<open>[0, (n div sl) * sl)\<close>, and every field of the
  result is the concatenation, in that order, of the runs of \<open>sl\<close> elements of its
  source field that begin at these indices. Every result field has the length
  \<open>(batch_size div sl) * sl\<close>, and its \<open>j\<close>-th run is the run of its source field at
  the \<open>j\<close>-th start index, the same index for all fields.
\<close>

theorem sample_mini_batch_aligned:
  assumes "n = num_experiences self"
    and "\<forall>k f. map_of (entries self) k = Some f \<longrightarrow> int (length (elements f)) = n"
    and "1 \<le> sl" and "sl \<le> n" and "0 \<le> bs"
    and "randint (n div sl) (bs div sl) = Inr r"
    and "length r = nat (bs div sl)"
    and "\<forall>x\<in>set r. 0 \<le> x \<and> x < n div sl"
  shows "\<exists>mb starts.
           sample_mini_batch randint bs sl self = Inr mb
           \<and> starts = map (\<lambda>x. x * sl) r
           \<and> set (keys mb) = set (keys self)
           \<and> length starts = nat (bs div sl)
           \<and> (\<forall>i\<in>set starts. sl dvd i \<and> 0 \<le> i \<and> i < n div sl * sl)
           \<and> (\<forall>k f. map_of (entries self) k = Some f \<longrightarrow>
                 (\<exists>g. map_of (entries mb) k = Some g
                    \<and> elements g =
                        concat (map (\<lambda>i. take (nat sl) (drop (nat i) (elements f))) starts)
                    \<and> int (length (elements g)) = bs div sl * sl
                    \<and> (\<forall>j<length starts.
                          take (nat sl) (drop (j * nat sl) (elements g))
                            = take (nat sl) (drop (nat (starts ! j)) (elements f)))))"
proof -
  let ?starts = "map (\<lambda>x. x * sl) r"
  let ?run = "\<lambda>f i. take (nat sl) (drop (nat i) (elements f))"
  have sl0: "sl \<noteq> 0" using assms(3) by simp
  obtain mb where mb: "sample_mini_batch randint bs sl self = Inr mb"
    and ent: "\<And>k. map_of (entries mb) k =
                 map_option (\<lambda>f. \<lparr>elements = concat (map (\<lambda>i. py_slice (elements f)
                                       (Some i) (Some (i + sl))) ?starts),
                                   padding_value = 0\<rparr>)
                   (map_of (entries self) k)"
    using sample_mini_batch_map_of [of sl randint self bs r] sl0 assms(1,6) by blast
  have ks: "set (keys mb) = set (keys self)"
  proof -
    have "k \<in> set (keys mb) \<longleftrightarrow> k \<in> set (keys self)" for k
      using map_of_keys [of mb k] map_of_keys [of self k] ent [of k] by auto
    then show ?thesis by blast
  qed
  have ls: "length ?starts = nat (bs div sl)" using assms(7) by simp
  have st: "\<forall>i\<in>set ?starts. sl dvd i \<and> 0 \<le> i \<and> i < n div sl * sl"
    using sample_start(1) [OF assms(3) _ assms(8)] by blast
  have fld: "\<exists>g. map_of (entries mb) k = Some g
                \<and> elements g = concat (map (?run f) ?starts)
                \<and> int (length (elements g)) = bs div sl * sl
                \<and> (\<forall>j<length ?starts.
                      take (nat sl) (drop (j * nat sl) (elements g)) = ?run f (?starts ! j))"
    if f: "map_of (entries self) k = Some f" for k f
  proof -
    have n: "int (length (elements f)) = n" using assms(2) f by blast
    have eq: "map (\<lambda>i. py_slice (elements f) (Some i) (Some (i + sl))) ?starts
                = map (?run f) ?starts"
      using sample_run(1) [OF assms(3) _ assms(8) n] by (intro map_cong) simp_all
    have len: "length (?run f i) = nat sl" if "i \<in> set ?starts" for i
      using sample_run(2) [OF assms(3) that assms(8) n] .
    have g: "map_of (entries mb) k
               = Some \<lparr>elements = concat (map (?run f) ?starts), padding_value = 0\<rparr>"
      using ent [of k] f by (simp only: eq option.map)
    have "length (concat (map (?run f) ?starts)) = length ?starts * nat sl"
      using len by (rule length_concat_chunks)
    moreover have "0 \<le> bs div sl" using assms(3,5) by (simp add: pos_imp_zdiv_nonneg_iff)
    ultimately have l: "int (length (concat (map (?run f) ?starts))) = bs div sl * sl"
      using ls assms(3) by simp
    have c: "take (nat sl) (drop (j * nat sl) (concat (map (?run f) ?starts)))
               = ?run f (?starts ! j)" if "j < length ?starts" for j
      using len that by (rule chunk_of_concat)
    show ?thesis using g l c by simp
  qed
  have all: "\<forall>k f. map_of (entries self) k = Some f \<longrightarrow>
                 (\<exists>g. map_of (entries mb) k = Some g
                    \<and> elements g = concat (map (?run f) ?starts)
                    \<and> int (length (elements g)) = bs div sl * sl
                    \<and> (\<forall>j<length ?starts.
                          take (nat sl) (drop (j * nat sl) (elements g))
                            = ?run f (?starts ! j)))"
    using fld by blast
  show ?thesis
  proof (intro exI [of _ mb] exI [of _ ?starts] conjI)
    show "sample_mini_batch randint bs sl self = Inr mb" by (fact mb)
    show "?starts = map (\<lambda>x. x * sl) r" by (rule refl)
    show "set (keys mb) = set (keys self)" by (fact ks)
    show "length ?starts = nat (bs div sl)" by (fact ls)
    show "\<forall>i\<in>set ?starts. sl dvd i \<and> 0 \<le> i \<and> i < n div sl * sl" by (fact st)
    show "\<forall>k f. map_of (entries self) k = Some f \<longrightarrow>
                 (\<exists>g. map_of (entries mb) k = Some g
                    \<and> elements g = concat (map (?run f) ?starts)
                    \<and> int (length (elements g)) = bs div sl * sl
                    \<and> (\<forall>j<length ?starts.
                          take (nat sl) (drop (j * nat sl) (elements g))
                            = ?run f (?starts ! j)))"
      by (fact all)
  qed
qed

text \<open>
  Two fields of four elements, batch size 4, sequence length 2, the sampler drawing
  the sequences 1 and 0: both result fields are the second run of their source
  followed by the first.
\<close>

theorem sample_mini_batch_aligned_witness:
  "\<exists>mb g h. sample_mini_batch (\<lambda>high size. Inr [1, 0]) 4 2
       \<lparr>entries = [(''obs'', \<lparr>elements = [1, 2, 3, 4 :: int], padding_value = 0 :: int\<rparr>),
                   (''act'', \<lparr>elements = [10, 20, 30, 40], padding_value = 1\<rparr>)],
        last_brain_info = None :: unit option, last_take_action_outputs = None\<rparr> = Inr mb
     \<and> map_of (entries mb) ''obs'' = Some g \<and> elements g = [3, 4, 1, 2]
     \<and> map_of (entries mb) ''act'' = Some h \<and> elements h = [30, 40, 10, 20]"
proof -
  let ?b = "\<lparr>entries = [(''obs'', \<lparr>elements = [1, 2, 3, 4 :: int], padding_value = 0 :: int\<rparr>),
                   (''act'', \<lparr>elements = [10, 20, 30, 40], padding_value = 1\<rparr>)],
        last_brain_info = None :: unit option, last_take_action_outputs = None\<rparr>"
  let ?R = "\<lambda>(high :: int) (size :: int). Inr [1, 0 :: int] :: error + int list"
  have h1: "4 = num_experiences ?b" by (simp add: num_experiences_def)
  have h2: "\<forall>k f. map_of (entries ?b) k = Some f \<longrightarrow> int (length (elements f)) = 4"
    by (auto split: if_splits)
  have h3: "(1 :: int) \<le> 2" "(2 :: int) \<le> 4" "(0 :: int) \<le> 4" by simp_all
  have h4: "?R (4 div 2) (4 div 2) = Inr [1, 0]" by simp
  have h5: "length [1, 0 :: int] = nat (4 div 2)" by simp
  have h6: "\<forall>x\<in>set [1, 0 :: int]. 0 \<le> x \<and> x < 4 div 2" by simp
  from sample_mini_batch_aligned [of 4 ?b 2 4 ?R "[1, 0]", OF h1 h2 h3 h4 h5 h6]
  obtain mb starts where mb: "sample_mini_batch ?R 4 2 ?b = Inr mb"
    and starts: "starts = map (\<lambda>x. x * 2) [1, 0 :: int]"
    and f0: "\<forall>k f. map_of (entries ?b) k = Some f \<longrightarrow>
              (\<exists>g. map_of (entries mb) k = Some g
                 \<and> elements g = concat (map (\<lambda>i. take (nat 2) (drop (nat i) (elements f))) starts)
                 \<and> int (length (elements g)) = 4 div 2 * 2
                 \<and> (\<forall>j<length starts.
                       take (nat 2) (drop (j * nat 2) (elements g))
                         = take (nat 2) (drop (nat (starts ! j)) (elements f))))"
    by (elim exE conjE)
  have f: "\<forall>k f. map_of (entries ?b) k = Some f \<longrightarrow>
              (\<exists>g. map_of (entries mb) k = Some g
                 \<and> elements g = concat (map (\<lambda>i. take (nat 2) (drop (nat i) (elements f))) starts))"
    using f0 by blast
  have "map_of (entries ?b) ''obs'' = Some \<lparr>elements = [1, 2, 3, 4], padding_value = 0\<rparr>"
    by simp
  with f obtain g where g: "map_of (entries mb) ''obs'' = Some g"
    and "elements g = concat (map (\<lambda>i. take (nat 2) (drop (nat i)
            (elements \<lparr>elements = [1, 2, 3, 4 :: int], padding_value = 0 :: int\<rparr>))) starts)"
    by blast
  then have eg: "elements g = [3, 4, 1, 2]"
    unfolding starts by (simp add: numeral_eq_Suc)
  have "map_of (entries ?b) ''act'' = Some \<lparr>elements = [10, 20, 30, 40], padding_value = 1\<rparr>"
    by simp
  with f obtain h where h: "map_of (entries mb) ''act'' = Some h"
    and "elements h = concat (map (\<lambda>i. take (nat 2) (drop (nat i)
            (elements \<lparr>elements = [10, 20, 30, 40 :: int], padding_value = 1 :: int\<rparr>))) starts)"
    by blast
  then have eh: "elements h = [30, 40, 10, 20]"
    unfolding starts by (simp add: numeral_eq_Suc)
  show ?thesis using mb g eg h eh by blast
qed

subsection \<open>Shuffling\<close>

lemma chunk_loop_concat:
  "chunk_loop xs sl s tmp =
     tmp @ concat (map (\<lambda>i. py_slice xs (Some (i * sl)) (Some ((i + 1) * sl))) s)"
  by (induction s arbitrary: tmp) simp_all

lemma shuffle_loop_keys:
  "set ks \<subseteq> set (keys b) \<Longrightarrow> keys (shuffle_loop sl s ks b) = keys b"
proof (induction ks arbitrary: b)
  case Nil
  then show ?case by simp
next
  case (Cons k ks)
  then obtain f where f: "map_of (entries b) k = Some f"
    using map_of_keys [of b k] by auto
  show ?case
    using Cons f by (simp add: getitem_present assign_elements_present keys_setitem)
qed

lemma shuffle_loop_map_of:
  "distinct ks \<Longrightarrow> set ks \<subseteq> set (keys b) \<Longrightarrow>
   map_of (entries (shuffle_loop sl s ks b)) k =
     (if k \<in> set ks
      then map_option (\<lambda>f. f\<lparr>elements := chunk_loop (elements f) sl s []\<rparr>)
             (map_of (entries b) k)
      else map_of (entries b) k)"
proof (induction ks arbitrary: b)
  case Nil
  then show ?case by simp
next
  case (Cons k' ks)
  then obtain f where f: "map_of (entries b) k' = Some f"
    using map_of_keys [of b k'] by auto
  let ?b = "setitem k' (f\<lparr>elements := chunk_loop (elements f) sl s []\<rparr>) b"
  have sub: "set ks \<subseteq> set (keys ?b)"
    using Cons.prems by (auto simp: keys_setitem)
  have d: "distinct ks" "k' \<notin> set ks" using Cons.prems by simp_all
  show ?case
    using Cons.IH [OF d(1) sub] f d(2)
    by (auto simp add: getitem_present assign_elements_present map_of_setitem)
qed

lemma chunk_slice:
  fixes sl n i :: int
  assumes "1 \<le> sl" and "0 \<le> i" and "i < n div sl" and "int (length xs) = n"
  shows "py_slice xs (Some (i * sl)) (Some ((i + 1) * sl)) = take (nat sl) (drop (nat (i * sl)) xs)"
    and "length (take (nat sl) (drop (nat (i * sl)) xs)) = nat sl"
proof -
  note a = aligned_start [OF assms(1,2,3)]
  have hi: "(i + 1) * sl \<le> int (length xs)"
    using a(2,3) assms(4) by (simp add: algebra_simps)
  have d: "(i + 1) * sl - i * sl = sl" by (simp add: algebra_simps)
  show "py_slice xs (Some (i * sl)) (Some ((i + 1) * sl))
          = take (nat sl) (drop (nat (i * sl)) xs)"
    using py_slice_take_drop [of "i * sl" "(i + 1) * sl" xs] a(1) hi assms(1) d
    by (simp add: algebra_simps)
  have "i * sl + sl \<le> int (length xs)" using hi by (simp add: algebra_simps)
  then show "length (take (nat sl) (drop (nat (i * sl)) xs)) = nat sl"
    using a(1) assms(1) by simp
qed

lemma shuffled_indices:
  assumes "mset s = mset (np_arange c)"
  shows "\<forall>i\<in>set s. 0 \<le> i \<and> i < c" and "int (length s) = max c 0"
proof -
  have "set s = set (np_arange c)" using assms by (rule mset_eq_setD)
  then show "\<forall>i\<in>set s. 0 \<le> i \<and> i < c" by (auto simp: np_arange_def py_range_def)
  have "length s = length (np_arange c)" using assms by (rule mset_eq_length)
  then show "int (length s) = max c 0" by (simp add: np_arange_def py_range_def)
qed

lemma shuffle_fields:
  assumes "names \<noteq> []" and "distinct names"
    and "\<forall>k\<in>set names. \<exists>f. map_of (entries self) k = Some f \<and> int (length (elements f)) = n"
    and "sl \<noteq> 0"
  shows "shuffle rnd sl (Some names) self =
           (Inr (), shuffle_loop sl (rnd (np_arange (n div sl))) names self)"
proof -
  have "\<forall>k\<in>set names. \<exists>f. map_of (entries self) k = Some f \<and> length (elements f) = nat n"
    using assms(3) by fastforce
  then have c: "check_length self names"
    unfolding check_length_iff by blast
  obtain k0 ks where names: "names = k0 # ks" using assms(1) by (cases names) auto
  then obtain f0 where f0: "map_of (entries self) k0 = Some f0" "int (length (elements f0)) = n"
    using assms(3) by auto
  show ?thesis
    using c names f0 assms(4) by (simp add: shuffle_def getitem_present Let_def)
qed

text \<open>
  Claim C4, as the code has it. The names are a non-empty list without repetition,
  every named field has the length \<open>n\<close>, the sequence length \<open>sl\<close> is at least 1, and
  \<^verbatim>\<open>np.random.shuffle\<close> leaves a permutation of the array it is given. Then
  \<^verbatim>\<open>shuffle\<close> returns, and there is one permutation of the chunk indices
  \<open>0, \<dots>, n div sl - 1\<close> such that every named field is the concatenation of its
  chunks of \<open>sl\<close> elements in the order of that permutation: it keeps its padding
  value and has \<open>(n div sl) * sl\<close> elements, those beyond that bound being dropped.
  The fields that are not named stay as they are. For \<open>sl = 1\<close>, every index of the
  result has one source index from which all named fields take their element.
\<close>

theorem shuffle_permutes_chunks:
  assumes "names \<noteq> []" and "distinct names"
    and "\<forall>k\<in>set names. \<exists>f. map_of (entries self) k = Some f \<and> int (length (elements f)) = n"
    and "1 \<le> sl"
    and "mset (rnd (np_arange (n div sl))) = mset (np_arange (n div sl))"
  shows "\<exists>perm.
           mset perm = mset [0..n div sl - 1]
           \<and> fst (shuffle rnd sl (Some names) self) = Inr ()
           \<and> (\<forall>k f. k \<in> set names \<and> map_of (entries self) k = Some f \<longrightarrow>
                 (\<exists>g. map_of (entries (snd (shuffle rnd sl (Some names) self))) k = Some g
                    \<and> elements g =
                        concat (map (\<lambda>i. take (nat sl) (drop (nat (i * sl)) (elements f))) perm)
                    \<and> padding_value g = padding_value f
                    \<and> int (length (elements g)) = n div sl * sl))
           \<and> (\<forall>k. k \<notin> set names \<longrightarrow>
                 map_of (entries (snd (shuffle rnd sl (Some names) self))) k
                   = map_of (entries self) k)
           \<and> (sl = 1 \<longrightarrow>
                 (\<forall>i<nat n. \<exists>j<nat n.
                    \<forall>k f g. k \<in> set names \<and> map_of (entries self) k = Some f
                        \<and> map_of (entries (snd (shuffle rnd sl (Some names) self))) k = Some g
                      \<longrightarrow> elements g ! i = elements f ! j))"
proof -
  let ?s = "rnd (np_arange (n div sl))"
  let ?res = "snd (shuffle rnd sl (Some names) self)"
  let ?chunks = "\<lambda>f. concat (map (\<lambda>i. take (nat sl) (drop (nat (i * sl)) (elements f))) ?s)"
  have sl0: "sl \<noteq> 0" using assms(4) by simp
  have n0: "0 \<le> n"
  proof -
    obtain k where "k \<in> set names" using assms(1) by (cases names) auto
    then show ?thesis using assms(3) by fastforce
  qed
  have c0: "0 \<le> n div sl" using n0 assms(4) by (simp add: pos_imp_zdiv_nonneg_iff)
  have sh: "shuffle rnd sl (Some names) self = (Inr (), shuffle_loop sl ?s names self)"
    using assms(1,2,3) sl0 by (rule shuffle_fields)
  have sub: "set names \<subseteq> set (keys self)"
  proof
    fix k assume "k \<in> set names"
    then obtain f where "map_of (entries self) k = Some f" using assms(3) by blast
    then show "k \<in> set (keys self)" using map_of_keys [of self k] by auto
  qed
  have ent: "map_of (entries ?res) k =
     (if k \<in> set names
      then map_option (\<lambda>f. f\<lparr>elements := chunk_loop (elements f) sl ?s []\<rparr>)
             (map_of (entries self) k)
      else map_of (entries self) k)" for k
    unfolding sh snd_conv using assms(2) sub by (rule shuffle_loop_map_of)
  note idx = shuffled_indices [OF assms(5)]
  have perm: "mset ?s = mset [0..n div sl - 1]"
    using assms(5) by (simp add: np_arange_def py_range_def)
  have named: "\<exists>g. map_of (entries ?res) k = Some g
                  \<and> elements g = ?chunks f
                  \<and> padding_value g = padding_value f
                  \<and> int (length (elements g)) = n div sl * sl"
    if k: "k \<in> set names" and f: "map_of (entries self) k = Some f" for k f
  proof -
    have len: "int (length (elements f)) = n" using assms(3) k f by fastforce
    have eq: "map (\<lambda>i. py_slice (elements f) (Some (i * sl)) (Some ((i + 1) * sl))) ?s
                = map (\<lambda>i. take (nat sl) (drop (nat (i * sl)) (elements f))) ?s"
      using chunk_slice(1) [OF assms(4) _ _ len] idx(1) by (intro map_cong) simp_all
    have cl: "chunk_loop (elements f) sl ?s [] = ?chunks f"
      by (simp only: chunk_loop_concat eq append_Nil)
    have "length (?chunks f) = length ?s * nat sl"
      using chunk_slice(2) [OF assms(4) _ _ len] idx(1) by (intro length_concat_chunks) simp
    then have "int (length (?chunks f)) = n div sl * sl"
      using idx(2) c0 assms(4) by simp
    then show ?thesis
      using ent [of k] k f cl by simp
  qed
  have other: "map_of (entries ?res) k = map_of (entries self) k" if "k \<notin> set names" for k
    using ent [of k] that by simp
  have align: "\<exists>j<nat n. \<forall>k f g. k \<in> set names \<and> map_of (entries self) k = Some f
                        \<and> map_of (entries ?res) k = Some g
                      \<longrightarrow> elements g ! i = elements f ! j"
    if one: "sl = 1" and i: "i < nat n" for i
  proof -
    have ls: "length ?s = nat n" using idx(2) n0 one by simp
    then have mem: "?s ! i \<in> set ?s" using i by simp
    then have b: "0 \<le> ?s ! i" "?s ! i < n" using idx(1) one by simp_all
    have "elements g ! i = elements f ! nat (?s ! i)"
      if k: "k \<in> set names" and f: "map_of (entries self) k = Some f"
        and g: "map_of (entries ?res) k = Some g" for k f g
    proof -
      have len: "int (length (elements f)) = n" using assms(3) k f by fastforce
      have "elements g = ?chunks f" using named [OF k f] g by simp
      also have "\<dots> = map (\<lambda>i. elements f ! nat i) ?s"
      proof -
        have "take (nat sl) (drop (nat (x * sl)) (elements f)) = [elements f ! nat x]"
          if "x \<in> set ?s" for x
        proof -
          have "0 \<le> x \<and> x < n" using idx(1) that one by simp
          then have "nat x < length (elements f)" using len by linarith
          then show ?thesis using one by (simp add: take_Suc_conv_app_nth hd_drop_conv_nth take_Suc)
        qed
        then have meq: "map (\<lambda>i. take (nat sl) (drop (nat (i * sl)) (elements f))) ?s
                     = map (\<lambda>i. [elements f ! nat i]) ?s"
          by (intro map_cong) simp_all
        show ?thesis by (simp only: meq concat_map_singleton)
      qed
      finally show ?thesis using i ls by simp
    qed
    moreover have "nat (?s ! i) < nat n" using b by simp
    ultimately show ?thesis by blast
  qed
  have ok: "fst (shuffle rnd sl (Some names) self) = Inr ()" using sh by simp
  show ?thesis
    using perm ok named other align by blast
qed

text \<open>Two fields of three elements, shuffled with the reversal as the permutation.\<close>

theorem shuffle_permutes_chunks_witness:
  "fst (shuffle rev 1 (Some [''a'', ''b''])
       \<lparr>entries = [(''a'', \<lparr>elements = [1, 2, 3 :: int], padding_value = 0 :: int\<rparr>),
                   (''b'', \<lparr>elements = [10, 20, 30], padding_value = 1\<rparr>)],
        last_brain_info = None :: unit option, last_take_action_outputs = None\<rparr>) = Inr ()
   \<and> (\<exists>g. map_of (entries (snd (shuffle rev 1 (Some [''a'', ''b''])
       \<lparr>entries = [(''a'', \<lparr>elements = [1, 2, 3 :: int], padding_value = 0 :: int\<rparr>),
                   (''b'', \<lparr>elements = [10, 20, 30], padding_value = 1\<rparr>)],
        last_brain_info = None :: unit option, last_take_action_outputs = None\<rparr>))) ''b'' = Some g
        \<and> padding_value g = 1 \<and> int (length (elements g)) = 3)"
proof -
  let ?b = "\<lparr>entries = [(''a'', \<lparr>elements = [1, 2, 3 :: int], padding_value = 0 :: int\<rparr>),
                   (''b'', \<lparr>elements = [10, 20, 30], padding_value = 1\<rparr>)],
        last_brain_info = None :: unit option, last_take_action_outputs = None\<rparr>"
  have h1: "[''a'', ''b''] \<noteq> []" and h2: "distinct [''a'', ''b'']" by simp_all
  have h3: "\<forall>k\<in>set [''a'', ''b''].
              \<exists>f. map_of (entries ?b) k = Some f \<and> int (length (elements f)) = 3"
    by simp
  have h4: "(1 :: int) \<le> 1" by simp
  have h5: "mset (rev (np_arange (3 div 1))) = mset (np_arange (3 div 1))" by simp
  from shuffle_permutes_chunks [of "[''a'', ''b'']" ?b 3 1 rev, OF h1 h2 h3 h4 h5]
  obtain perm where ok: "fst (shuffle rev 1 (Some [''a'', ''b'']) ?b) = Inr ()"
    and f: "\<forall>k f. k \<in> set [''a'', ''b''] \<and> map_of (entries ?b) k = Some f \<longrightarrow>
              (\<exists>g. map_of (entries (snd (shuffle rev 1 (Some [''a'', ''b'']) ?b))) k = Some g
                 \<and> elements g =
                     concat (map (\<lambda>i. take (nat 1) (drop (nat (i * 1)) (elements f))) perm)
                 \<and> padding_value g = padding_value f
                 \<and> int (length (elements g)) = 3 div 1 * 1)"
    by blast
  have "''b'' \<in> set [''a'', ''b'']
        \<and> map_of (entries ?b) ''b'' = Some \<lparr>elements = [10, 20, 30], padding_value = 1\<rparr>"
    by simp
  with f obtain g where "map_of (entries (snd (shuffle rev 1 (Some [''a'', ''b'']) ?b))) ''b'' = Some g"
    and "padding_value g = padding_value \<lparr>elements = [10, 20, 30 :: int], padding_value = 1 :: int\<rparr>"
    and "int (length (elements g)) = 3 div 1 * 1"
    by blast
  with ok show ?thesis by auto
qed

text \<open>
  The claim as the specification words it speaks of every list of names. With a name
  given twice its field is permuted twice, the other field once: the rotation
  \<open>[1, 2, 0]\<close> of the three indices leaves \<open>3\<close> and \<open>20\<close> at index 0, which no index of
  the source fields pairs.
\<close>

theorem shuffle_permutes_chunks_counterexample:
  "snd (shuffle rotate1 1 (Some [''a'', ''a'', ''b''])
       \<lparr>entries = [(''a'', \<lparr>elements = [1, 2, 3 :: int], padding_value = 0 :: int\<rparr>),
                   (''b'', \<lparr>elements = [10, 20, 30], padding_value = 0\<rparr>)],
        last_brain_info = None :: unit option, last_take_action_outputs = None\<rparr>)
     = \<lparr>entries = [(''a'', \<lparr>elements = [3, 1, 2], padding_value = 0\<rparr>),
                  (''b'', \<lparr>elements = [20, 30, 10], padding_value = 0\<rparr>)],
        last_brain_info = None, last_take_action_outputs = None\<rparr>
   \<and> rotate1 (np_arange 3) = [1, 2, 0]
   \<and> (3, 20) \<notin> set (zip [1, 2, 3 :: int] [10, 20, 30 :: int])"
proof -
  have r: "np_arange 3 = [0, 1, 2]"
    by (simp add: np_arange_def py_range_def upto.simps)
  show ?thesis
    by (simp add: r shuffle_def check_length_def getitem_def setitem_def assign_elements_def
        py_slice_def slice_bound_def Let_def)
qed

subsection \<open>Reset\<close>

lemma getitem_value_present:
  "map_of (entries b) k = Some v \<Longrightarrow> getitem_value k b = (v, b)"
  by (simp add: getitem_value_def)

lemma reset_loop_fields:
  assumes "\<forall>k v. map_of (entries b) k = Some v \<longrightarrow> (\<exists>g. v = FieldObj g)"
    and "set ks \<subseteq> set (keys b)"
  shows "fst (reset_loop ks b) = Inr ()
         \<and> keys (snd (reset_loop ks b)) = keys b
         \<and> (\<forall>k g. map_of (entries b) k = Some (FieldObj g) \<longrightarrow>
               map_of (entries (snd (reset_loop ks b))) k
                 = Some (FieldObj (if k \<in> set ks then reset_field g else g)))"
  using assms
proof (induction ks arbitrary: b)
  case Nil
  then show ?case by simp
next
  case (Cons k' ks)
  obtain v where "map_of (entries b) k' = Some v"
    using Cons.prems(2) map_of_keys [of b k'] by auto
  then obtain f where f: "map_of (entries b) k' = Some (FieldObj f)"
    using Cons.prems(1) by blast
  let ?b = "setitem k' (FieldObj (reset_field f)) b"
  have step: "reset_loop (k' # ks) b = reset_loop ks ?b"
    using f by (simp add: getitem_value_present call_reset_field_def)
  have allf: "\<forall>k v. map_of (entries ?b) k = Some v \<longrightarrow> (\<exists>g. v = FieldObj g)"
    using Cons.prems(1) by (simp add: map_of_setitem)
  have kb: "keys ?b = keys b"
    using Cons.prems(2) by (simp add: keys_setitem)
  have sub: "set ks \<subseteq> set (keys ?b)"
    using Cons.prems(2) kb by simp
  note ih = Cons.IH [OF allf sub]
  have m: "map_of (entries (snd (reset_loop ks ?b))) k
             = Some (FieldObj (if k \<in> set (k' # ks) then reset_field g else g))"
    if g: "map_of (entries b) k = Some (FieldObj g)" for k g
  proof (cases "k = k'")
    case True
    then have "g = f" using f g by simp
    moreover have "map_of (entries ?b) k' = Some (FieldObj (reset_field f))"
      by (simp add: map_of_setitem)
    ultimately show ?thesis using ih True by (simp add: reset_field_def)
  next
    case False
    then have "map_of (entries ?b) k = Some (FieldObj g)"
      using g by (simp add: map_of_setitem)
    then show ?thesis using ih False by simp
  qed
  show ?case
    unfolding step using ih kb m by simp
qed

lemma reset_loop_metadata:
  "last_brain_info (snd (reset_loop ks b)) = last_brain_info b
   \<and> last_take_action_outputs (snd (reset_loop ks b)) = last_take_action_outputs b"
  by (induction ks arbitrary: b)
     (auto simp: getitem_value_def setitem_def Let_def split: option.splits sum.splits)

lemma reset_loop_plain_list:
  "k \<in> set ks \<Longrightarrow> map_of (entries b) k = Some (ListObj xs) \<Longrightarrow>
   fst (reset_loop ks b) = Inl AttributeError"
proof (induction ks arbitrary: b)
  case Nil
  then show ?case by simp
next
  case (Cons k' ks)
  obtain v b1 where g: "getitem_value k' b = (v, b1)" by (cases "getitem_value k' b")
  show ?case
  proof (cases v)
    case (ListObj ys)
    then show ?thesis using g by (simp add: call_reset_field_def)
  next
    case (FieldObj f)
    then have ne: "k \<noteq> k'"
      using g Cons.prems(2) by (auto simp: getitem_value_def split: option.splits)
    then have "k \<in> set ks" using Cons.prems(1) by simp
    moreover have "map_of (entries (setitem k' (FieldObj (reset_field f)) b1)) k
                     = Some (ListObj xs)"
      using g ne Cons.prems(2)
      by (auto simp: getitem_value_def map_of_setitem split: option.splits)
    ultimately have "fst (reset_loop ks (setitem k' (FieldObj (reset_field f)) b1))
                       = Inl AttributeError"
      by (rule Cons.IH)
    then show ?thesis using g FieldObj by (simp add: call_reset_field_def)
  qed
qed

text \<open>
  Claim C9, as the code has it. \<^verbatim>\<open>reset_field\<close> leaves a field with no element
  and with the padding value it had. On a buffer whose values are all fields
  \<^verbatim>\<open>reset_agent\<close> returns, keeps the keys in their order, puts under every key
  the reset of the field that was there, and sets both metadata slots to \<open>None\<close>. On
  a buffer with a plain list among its values, as \<^verbatim>\<open>make_mini_batch\<close> returns it,
  \<^verbatim>\<open>reset_agent\<close> raises \<^verbatim>\<open>AttributeError\<close> and the two metadata slots keep
  what they held.
\<close>

theorem reset_frame:
  "elements (reset_field f) = [] \<and> padding_value (reset_field f) = padding_value f
   \<and> ((\<forall>k v. map_of (entries b) k = Some v \<longrightarrow> (\<exists>g. v = FieldObj g)) \<longrightarrow>
        fst (reset_agent b) = Inr ()
        \<and> keys (snd (reset_agent b)) = keys b
        \<and> (\<forall>k g. map_of (entries b) k = Some (FieldObj g) \<longrightarrow>
              map_of (entries (snd (reset_agent b))) k = Some (FieldObj (reset_field g)))
        \<and> last_brain_info (snd (reset_agent b)) = None
        \<and> last_take_action_outputs (snd (reset_agent b)) = None)
   \<and> ((\<exists>k xs. map_of (entries b) k = Some (ListObj xs)) \<longrightarrow>
        fst (reset_agent b) = Inl AttributeError
        \<and> last_brain_info (snd (reset_agent b)) = last_brain_info b
        \<and> last_take_action_outputs (snd (reset_agent b)) = last_take_action_outputs b)"
proof -
  have field: "elements (reset_field f) = [] \<and> padding_value (reset_field f) = padding_value f"
    by (simp add: reset_field_def)
  have good: "fst (reset_agent b) = Inr ()
        \<and> keys (snd (reset_agent b)) = keys b
        \<and> (\<forall>k g. map_of (entries b) k = Some (FieldObj g) \<longrightarrow>
              map_of (entries (snd (reset_agent b))) k = Some (FieldObj (reset_field g)))
        \<and> last_brain_info (snd (reset_agent b)) = None
        \<and> last_take_action_outputs (snd (reset_agent b)) = None"
    if allf: "\<forall>k v. map_of (entries b) k = Some v \<longrightarrow> (\<exists>g. v = FieldObj g)"
  proof -
    note l = reset_loop_fields [OF allf subset_refl]
    obtain b1 where b1: "reset_loop (keys b) b = (Inr (), b1)"
      using l by (cases "reset_loop (keys b) b") auto
    have r: "reset_agent b
               = (Inr (), b1\<lparr>last_brain_info := None, last_take_action_outputs := None\<rparr>)"
      using b1 by (simp add: reset_agent_def)
    have "map_of (entries b1) k = Some (FieldObj (reset_field g))"
      if "map_of (entries b) k = Some (FieldObj g)" for k g
    proof -
      have "k \<in> set (keys b)" using that map_of_keys [of b k] by auto
      then show ?thesis using l that b1 by simp
    qed
    moreover have "keys b1 = keys b" using l b1 by simp
    ultimately show ?thesis
      unfolding r by (simp add: keys_def)
  qed
  have bad: "fst (reset_agent b) = Inl AttributeError
        \<and> last_brain_info (snd (reset_agent b)) = last_brain_info b
        \<and> last_take_action_outputs (snd (reset_agent b)) = last_take_action_outputs b"
    if ex: "\<exists>k xs. map_of (entries b) k = Some (ListObj xs)"
  proof -
    obtain k xs where k: "map_of (entries b) k = Some (ListObj xs)" using ex by blast
    then have "k \<in> set (keys b)" using map_of_keys [of b k] by auto
    then have "fst (reset_loop (keys b) b) = Inl AttributeError"
      using k by (rule reset_loop_plain_list)
    then obtain b1 where b1: "reset_loop (keys b) b = (Inl AttributeError, b1)"
      by (cases "reset_loop (keys b) b") auto
    then have "reset_agent b = (Inl AttributeError, b1)"
      by (simp add: reset_agent_def)
    then show ?thesis
      using reset_loop_metadata [of "keys b" b] b1 by simp
  qed
  show ?thesis using field good bad by blast
qed

text \<open>One field with padding value 5, and both metadata slots set.\<close>

theorem reset_frame_witness:
  "fst (reset_agent
       \<lparr>entries = [(''obs'', FieldObj \<lparr>elements = [1, 2 :: int], padding_value = 5 :: int\<rparr>)],
        last_brain_info = Some (), last_take_action_outputs = Some ()\<rparr>) = Inr ()
   \<and> map_of (entries (snd (reset_agent
       \<lparr>entries = [(''obs'', FieldObj \<lparr>elements = [1, 2 :: int], padding_value = 5 :: int\<rparr>)],
        last_brain_info = Some (), last_take_action_outputs = Some ()\<rparr>))) ''obs''
       = Some (FieldObj \<lparr>elements = [], padding_value = 5\<rparr>)
   \<and> last_brain_info (snd (reset_agent
       \<lparr>entries = [(''obs'', FieldObj \<lparr>elements = [1, 2 :: int], padding_value = 5 :: int\<rparr>)],
        last_brain_info = Some (), last_take_action_outputs = Some ()\<rparr>)) = None"
proof -
  let ?f = "\<lparr>elements = [1, 2 :: int], padding_value = 5 :: int\<rparr>"
  let ?b = "\<lparr>entries = [(''obs'', FieldObj ?f)],
        last_brain_info = Some (), last_take_action_outputs = Some ()\<rparr>"
  have allf: "\<forall>k v. map_of (entries ?b) k = Some v \<longrightarrow> (\<exists>g. v = FieldObj g)"
    by simp
  note t = reset_frame [of ?f ?b, THEN conjunct2, THEN conjunct2, THEN conjunct1, THEN mp, OF allf]
  have 1: "fst (reset_agent ?b) = Inr ()" using t by (rule conjunct1)
  have "\<forall>k g. map_of (entries ?b) k = Some (FieldObj g) \<longrightarrow>
              map_of (entries (snd (reset_agent ?b))) k = Some (FieldObj (reset_field g))"
    using t by blast
  moreover have "map_of (entries ?b) ''obs'' = Some (FieldObj ?f)" by simp
  ultimately have "map_of (entries (snd (reset_agent ?b))) ''obs''
                     = Some (FieldObj (reset_field ?f))"
    by blast
  then have 2: "map_of (entries (snd (reset_agent ?b))) ''obs''
                  = Some (FieldObj \<lparr>elements = [], padding_value = 5\<rparr>)"
    by (simp add: reset_field_def)
  have 3: "last_brain_info (snd (reset_agent ?b)) = None" using t by blast
  show ?thesis using 1 2 3 by simp
qed

text \<open>
  The claim as the specification words it speaks of every buffer. The buffer that
  \<^verbatim>\<open>make_mini_batch\<close> returns holds plain lists: on it \<^verbatim>\<open>reset_agent\<close> raises,
  and the entry keeps its elements.
\<close>

theorem reset_frame_counterexample:
  "fst (reset_agent (make_mini_batch 0 2
       \<lparr>entries = [(''obs'', \<lparr>elements = [1, 2, 3 :: int], padding_value = 0 :: int\<rparr>)],
        last_brain_info = None :: unit option, last_take_action_outputs = None\<rparr>))
     = Inl AttributeError
   \<and> map_of (entries (snd (reset_agent (make_mini_batch 0 2
       \<lparr>entries = [(''obs'', \<lparr>elements = [1, 2, 3 :: int], padding_value = 0 :: int\<rparr>)],
        last_brain_info = None :: unit option, last_take_action_outputs = None\<rparr>)))) ''obs''
     = Some (ListObj [1, 2])"
  by (simp add: reset_agent_def make_mini_batch_def keys_def new_buffer_def setitem_def
      getitem_value_def getitem_def call_reset_field_def py_slice_def slice_bound_def)

end
